theory Spec2Isabelle
  imports Main "HOL-Library.Sublist" "HOL-Library.AList"
begin

section \<open>Text and character model\<close>

text \<open>
  Source text is a \<open>string\<close>: a list of characters, each one a code point below 256.
  The regular expressions of the source are compiled from \<open>str\<close> patterns, so their
  classes \<open>\w\<close> and \<open>\s\<close> and the boundary \<open>\b\<close> follow Unicode, while the sets
  \<open>[a-zA-Z_]\<close> and \<open>[0-9a-zA-Z]\<close> are what they list. Below 256 the word characters
  beyond letters, digits and the underscore are the letters and numeric signs of
  Latin-1, and the white space beyond ASCII is the next-line control and the no-break
  space.
\<close>

definition is_digit :: "char \<Rightarrow> bool" where
  "is_digit c = (48 \<le> (of_char c :: nat) \<and> (of_char c :: nat) \<le> 57)"

definition is_alpha :: "char \<Rightarrow> bool" where
  "is_alpha c = ((65 \<le> (of_char c :: nat) \<and> (of_char c :: nat) \<le> 90)
               \<or> (97 \<le> (of_char c :: nat) \<and> (of_char c :: nat) \<le> 122))"

definition is_alnum :: "char \<Rightarrow> bool" where
  "is_alnum c = (is_digit c \<or> is_alpha c)"

definition latin1_word :: "char \<Rightarrow> bool" where
  "latin1_word c =
     (let n = (of_char c :: nat)
      in n = 0xAA \<or> n = 0xB2 \<or> n = 0xB3 \<or> n = 0xB5 \<or> n = 0xB9 \<or> n = 0xBA
         \<or> (0xBC \<le> n \<and> n \<le> 0xBE) \<or> (0xC0 \<le> n \<and> n \<le> 0xD6)
         \<or> (0xD8 \<le> n \<and> n \<le> 0xF6) \<or> 0xF8 \<le> n)"

definition is_word :: "char \<Rightarrow> bool" where
  "is_word c = (is_alnum c \<or> c = CHR ''_'' \<or> latin1_word c)"

definition ident_start :: "char \<Rightarrow> bool" where
  "ident_start c = (is_alpha c \<or> c = CHR ''_'')"

definition is_space :: "char \<Rightarrow> bool" where
  "is_space c = ((9 \<le> (of_char c :: nat) \<and> (of_char c :: nat) \<le> 13)
               \<or> (28 \<le> (of_char c :: nat) \<and> (of_char c :: nat) \<le> 32)
               \<or> (of_char c :: nat) = 0x85 \<or> (of_char c :: nat) = 0xA0)"

subsection \<open>\<open>str.replace\<close>\<close>

text \<open>
  \<open>s.replace(old, new)\<close>: every non-overlapping occurrence of \<open>old\<close>, found left to
  right, is replaced. With an empty \<open>old\<close> Python puts \<open>new\<close> before every character and
  at the end.
\<close>

function str_replace :: "string \<Rightarrow> string \<Rightarrow> string \<Rightarrow> string" where
  "str_replace old new [] = (if old = [] then new else [])"
| "str_replace old new (c # cs) =
     (if old = [] then new @ c # str_replace old new cs
      else if prefix old (c # cs) then new @ str_replace old new (drop (length old) (c # cs))
      else c # str_replace old new cs)"
  by pat_completeness auto
termination
  by (relation "measure (\<lambda>(old, new, s). length s)") auto


subsection \<open>\<open>str.find\<close> and \<open>str.rfind\<close>\<close>

fun find_at :: "string \<Rightarrow> string \<Rightarrow> nat option" where
  "find_at needle [] = (if needle = [] then Some 0 else None)"
| "find_at needle (c # cs) =
     (if prefix needle (c # cs) then Some 0 else map_option Suc (find_at needle cs))"

text \<open>\<open>s.find(needle, start)\<close>, with \<open>None\<close> for Python's \<open>-1\<close>.\<close>

definition str_find :: "string \<Rightarrow> string \<Rightarrow> nat \<Rightarrow> nat option" where
  "str_find needle s start =
     (if length s < start then None
      else map_option (\<lambda>i. i + start) (find_at needle (drop start s)))"

text \<open>\<open>s.rfind(c, 0, e)\<close> for a one-character needle.\<close>

definition str_rfind :: "char \<Rightarrow> string \<Rightarrow> nat \<Rightarrow> nat option" where
  "str_rfind c s e =
     (case filter (\<lambda>i. s ! i = c) (rev [0 ..< min e (length s)]) of
        [] \<Rightarrow> None
      | i # _ \<Rightarrow> Some i)"

section \<open>Locating blobs: the brace scanner\<close>

text \<open>
  One round of the \<open>while True\<close> loop of \<open>find_buildinfo_and_nearest_opening_brace\<close>:
  the quoted marker is looked for first, the bare one only when the quoted one is not
  found from \<open>index\<close> on.
\<close>

definition next_buildinfo :: "string \<Rightarrow> nat \<Rightarrow> nat option" where
  "next_buildinfo js_code index =
     (case str_find (CHR 0x22 # ''buildInfo'' @ [CHR 0x22]) js_code index of
        Some i \<Rightarrow> Some i
      | None \<Rightarrow> str_find ''buildInfo'' js_code index)"

lemma find_at_bounds: "find_at needle s = Some i \<Longrightarrow> i + length needle \<le> length s"
proof (induction s arbitrary: i)
  case Nil
  then show ?case by (simp split: if_splits)
next
  case (Cons c cs)
  show ?case
  proof (cases "prefix needle (c # cs)")
    case True
    with Cons.prems show ?thesis by (auto dest: prefix_length_le)
  next
    case False
    with Cons.prems obtain j where "find_at needle cs = Some j" "i = Suc j" by auto
    with Cons.IH show ?thesis by fastforce
  qed
qed

lemma str_find_bounds:
  "str_find needle s start = Some i \<Longrightarrow> start \<le> i \<and> i + length needle \<le> length s"
  by (fastforce simp: str_find_def split: if_splits dest: find_at_bounds)

lemma next_buildinfo_bounds:
  "next_buildinfo js_code index = Some i \<Longrightarrow> index \<le> i \<and> i < length js_code"
  by (fastforce simp: next_buildinfo_def split: option.splits dest: str_find_bounds)

function find_buildinfo_loop :: "string \<Rightarrow> nat \<Rightarrow> (nat \<times> nat) list" where
  "find_buildinfo_loop js_code index =
     (case next_buildinfo js_code index of
        None \<Rightarrow> []
      | Some build_info_index \<Rightarrow>
          (case str_rfind (CHR ''{'') js_code build_info_index of
             None \<Rightarrow> []
           | Some open_brace_index \<Rightarrow> [(open_brace_index, build_info_index)])
          @ find_buildinfo_loop js_code (build_info_index + 1))"
  by pat_completeness auto
termination
  by (relation "measure (\<lambda>(js_code, index). Suc (length js_code) - index)")
     (auto dest: next_buildinfo_bounds)

definition find_buildinfo_and_nearest_opening_brace :: "string \<Rightarrow> (nat \<times> nat) list" where
  "find_buildinfo_and_nearest_opening_brace js_code = find_buildinfo_loop js_code 0"

text \<open>
  \<open>extract_matching_braces_content\<close>: the \<open>for\<close> loop over \<open>range(start_index, len(js_code))\<close>
  with its two locals, the running count (a Python integer) and the content read so far.
  Falling out of the loop returns \<open>None\<close>.
\<close>

fun scan_braces :: "int \<Rightarrow> string \<Rightarrow> string \<Rightarrow> string option" where
  "scan_braces open_brace_count content [] = None"
| "scan_braces open_brace_count content (c # cs) =
     (if c = CHR ''{'' then scan_braces (open_brace_count + 1) (content @ [c]) cs
      else if c = CHR ''}'' then
        (if open_brace_count - 1 = 0 then Some (content @ [c])
         else scan_braces (open_brace_count - 1) (content @ [c]) cs)
      else scan_braces open_brace_count (content @ [c]) cs)"

definition extract_matching_braces_content :: "string \<Rightarrow> nat \<Rightarrow> string option" where
  "extract_matching_braces_content js_code start_index =
     scan_braces 0 [] (drop start_index js_code)"

section \<open>The primary repair\<close>

text \<open>
  The look-ahead \<open>(?=\s*[:])\<close>: after any run of white space the next character is a
  colon.
\<close>

definition key_follows :: "string \<Rightarrow> bool" where
  "key_follows rest = (case dropWhile is_space rest of [] \<Rightarrow> False | c # _ \<Rightarrow> c = CHR '':'')"

text \<open>
  \<open>re.sub(r'(\b[a-zA-Z_]\w*\b)(?=\s*[:])', r'"\1"', s)\<close>. The scan goes left to right;
  \<open>prev\<close> tells whether the character before the current position is a word character,
  so a word boundary is at hand exactly when it is not. \<open>\w*\<close> is greedy and the
  closing \<open>\b\<close> rules out every shorter run, so the identifier is the whole run of word
  characters. After a match the scan goes on behind it; otherwise one character is
  copied.
\<close>

function sub_keys :: "bool \<Rightarrow> string \<Rightarrow> string" where
  "sub_keys prev [] = []"
| "sub_keys prev (c # cs) =
     (if \<not> prev \<and> ident_start c \<and> key_follows (dropWhile is_word cs)
      then CHR 0x22 # c # takeWhile is_word cs @ CHR 0x22 # sub_keys True (dropWhile is_word cs)
      else c # sub_keys (is_word c) cs)"
  by pat_completeness auto
termination
  by (relation "measure (\<lambda>(prev, s). length s)")
     (auto simp: length_dropWhile_le le_imp_less_Suc)

definition repair_json :: "string \<Rightarrow> string" where
  "repair_json s =
     (let s1 = sub_keys False s;
          s2 = str_replace [CHR 0x27] [CHR 0x22] s1;
          s3 = str_replace [CHR 0x5C] [CHR 0x5C, CHR 0x5C] s2;
          s4 = str_replace ''!0'' ''true'' s3;
          s5 = str_replace ''!1'' ''false'' s4
      in s5)"

section \<open>Addresses\<close>

definition sc_prefix :: string where
  "sc_prefix = ''erd1qqqqqqqqq''"

definition placeholder :: string where
  "placeholder = ''erd1qqqqqqqqqqqqqqqpqqqqqqqqqqqqqqqqqqqqqqqqqqqqq''"

text \<open>
  One attempt of the pattern \<open>erd1qqqqqqqqq[0-9a-zA-Z]+\b\<close> at the head of \<open>s\<close>: the
  prefix, then the whole run of letters and digits behind it (at least one), which must
  end at a word boundary: the run may not be followed by an underscore, and no shorter
  run ends at a boundary. The result is the token and the text behind it.
\<close>

definition match_sc :: "string \<Rightarrow> (string \<times> string) option" where
  "match_sc s =
     (let body = takeWhile is_alnum (drop (length sc_prefix) s);
          rest = dropWhile is_alnum (drop (length sc_prefix) s)
      in if prefix sc_prefix s \<and> body \<noteq> [] \<and> (case rest of [] \<Rightarrow> True | d # _ \<Rightarrow> \<not> is_word d)
         then Some (sc_prefix @ body, rest) else None)"

lemma match_sc_length: "match_sc s = Some (tok, rest) \<Longrightarrow> length rest < length s"
proof -
  assume "match_sc s = Some (tok, rest)"
  then have r: "rest = dropWhile is_alnum (drop (length sc_prefix) s)" and p: "prefix sc_prefix s"
    by (auto simp: match_sc_def Let_def split: if_splits)
  from p have "length sc_prefix \<le> length s" by (rule prefix_length_le)
  then have "length (drop (length sc_prefix) s) < length s" by (simp add: sc_prefix_def)
  with r show ?thesis using length_dropWhile_le le_less_trans by blast
qed

text \<open>
  \<open>re.compile(r'\berd1qqqqqqqqq[0-9a-zA-Z]+\b').findall(js_code)\<close>. The leading \<open>\b\<close>
  holds when the character before is not a word character (\<open>prev\<close> is false). The scan
  goes on behind a match, and one character further otherwise.
\<close>

function findall_sc :: "bool \<Rightarrow> string \<Rightarrow> string list" where
  "findall_sc prev [] = []"
| "findall_sc prev (c # cs) =
     (case (if prev then None else match_sc (c # cs)) of
        Some (tok, rest) \<Rightarrow> tok # findall_sc True rest
      | None \<Rightarrow> findall_sc (is_word c) cs)"
  by pat_completeness auto
termination
  by (relation "measure (\<lambda>(prev, s). length s)")
     (auto split: if_splits dest: match_sc_length)

text \<open>The list comprehension of \<open>extract_addresses\<close>; \<open>in\<close> on strings is the substring test.\<close>

definition extract_addresses :: "string \<Rightarrow> string list" where
  "extract_addresses js_code =
     filter (\<lambda>address. \<not> sublist placeholder address) (findall_sc False js_code)"


section \<open>Exceptions\<close>

text \<open>
  The Python exceptions that the modelled code can raise, by class; \<open>ValueError\<close> takes
  in its subclass \<open>JSONDecodeError\<close>. \<open>Unmodelled_text\<close> is none of them: it marks a
  descriptor text that the model of \<open>json.loads\<close> cannot follow.
\<close>

datatype py_error =
    TypeError | ValueError | IndexError | KeyError | AttributeError
  | RequestException | OSError | Unmodelled_text

section \<open>Collecting the repaired blobs\<close>

text \<open>
  The loop of \<open>process_js_url\<close> over the occurrences. \<open>extract_matching_braces_content\<close>
  may return \<open>None\<close>, which the loop passes to \<open>repair_json\<close> as it is; there
  \<open>re.sub\<close> raises \<open>TypeError\<close> on an argument that is not a string. Nothing in
  \<open>process_js_url\<close> catches it, so the loop ends with the exception.
\<close>

fun repair_blobs :: "string \<Rightarrow> (nat \<times> nat) list \<Rightarrow> string list \<Rightarrow> py_error + string list" where
  "repair_blobs js_code [] abi_jsons = Inr abi_jsons"
| "repair_blobs js_code (occurrence # occurrences) abi_jsons =
     (case extract_matching_braces_content js_code (fst occurrence) of
        None \<Rightarrow> Inl TypeError
      | Some buildinfo_content_nested \<Rightarrow>
          repair_blobs js_code occurrences (abi_jsons @ [repair_json buildinfo_content_nested]))"

definition extract_abi_jsons :: "string \<Rightarrow> py_error + string list" where
  "extract_abi_jsons js_code =
     repair_blobs js_code (find_buildinfo_and_nearest_opening_brace js_code) []"

section \<open>JSON values and \<open>json.loads\<close>\<close>

text \<open>
  The values that \<open>json.loads\<close> builds. A number keeps its lexeme. An object is the list
  of its members in insertion order with one entry per key, as a Python \<open>dict\<close> is.
\<close>

datatype json =
    JNull | JBool bool | JNumber string | JString string
  | JArray "json list" | JObject "(string \<times> json) list"

datatype token =
    TLBrace | TRBrace | TLBracket | TRBracket | TColon | TComma
  | TString string | TAtom json

definition json_ws :: "char \<Rightarrow> bool" where
  "json_ws c = (c = CHR '' '' \<or> c = CHR 0x09 \<or> c = CHR 0x0A \<or> c = CHR 0x0D)"

definition json_punct :: "char \<Rightarrow> bool" where
  "json_punct c = (c \<in> set ''{}[]:,'' \<or> c = CHR 0x22)"

definition is_hex :: "char \<Rightarrow> bool" where
  "is_hex c = (is_digit c \<or> (65 \<le> (of_char c :: nat) \<and> (of_char c :: nat) \<le> 70)
               \<or> (97 \<le> (of_char c :: nat) \<and> (of_char c :: nat) \<le> 102))"

definition hex_val :: "char \<Rightarrow> nat" where
  "hex_val c = (if is_digit c then of_char c - 48
                else if of_char c \<le> (70 :: nat) then of_char c - 55 else of_char c - 87)"

text \<open>
  The body of a string behind its opening quote, as \<open>scanstring\<close> in strict mode reads
  it: up to the closing quote, with the escapes decoded; a control character, an unknown
  escape and the end of the text are errors. A \<open>\u\<close> escape for a code point of 256 or
  more has no character in this model and is reported as \<open>Unmodelled\<close>.
\<close>

datatype scan_error = Malformed | Unmodelled

definition unescape :: "string \<Rightarrow> scan_error + (char \<times> string)" where
  "unescape s =
     (case s of
        [] \<Rightarrow> Inl Malformed
      | e # es \<Rightarrow>
          if e = CHR 0x22 \<or> e = CHR 0x5C \<or> e = CHR ''/'' then Inr (e, es)
          else if e = CHR ''b'' then Inr (CHR 0x08, es)
          else if e = CHR ''f'' then Inr (CHR 0x0C, es)
          else if e = CHR ''n'' then Inr (CHR 0x0A, es)
          else if e = CHR ''r'' then Inr (CHR 0x0D, es)
          else if e = CHR ''t'' then Inr (CHR 0x09, es)
          else if e = CHR ''u'' then
            (case es of
               h1 # h2 # h3 # h4 # rest \<Rightarrow>
                 if is_hex h1 \<and> is_hex h2 \<and> is_hex h3 \<and> is_hex h4 then
                   (if hex_val h1 = 0 \<and> hex_val h2 = 0
                    then Inr (char_of (16 * hex_val h3 + hex_val h4), rest)
                    else Inl Unmodelled)
                 else Inl Malformed
             | _ \<Rightarrow> Inl Malformed)
          else Inl Malformed)"

lemma unescape_length: "unescape s = Inr (ch, rest) \<Longrightarrow> length rest < length s"
  by (cases s) (auto simp: unescape_def split: list.splits if_splits)

function scan_string :: "string \<Rightarrow> string \<Rightarrow> scan_error + (string \<times> string)" where
  "scan_string acc [] = Inl Malformed"
| "scan_string acc (c # cs) =
     (if c = CHR 0x22 then Inr (rev acc, cs)
      else if c = CHR 0x5C then
        (case unescape cs of
           Inl e \<Rightarrow> Inl e
         | Inr (ch, rest) \<Rightarrow> scan_string (ch # acc) rest)
      else if (of_char c :: nat) < 32 then Inl Malformed
      else scan_string (c # acc) cs)"
  by pat_completeness auto
termination
  by (relation "measure (\<lambda>(acc, s). length s)") (auto dest: unescape_length)

text \<open>The number pattern \<open>-?(0|[1-9][0-9]*)(\.[0-9]+)?([eE][-+]?[0-9]+)?\<close>, matched in full.\<close>

definition exponent_ok :: "string \<Rightarrow> bool" where
  "exponent_ok s =
     (case s of
        [] \<Rightarrow> True
      | e # r \<Rightarrow>
          (e = CHR ''e'' \<or> e = CHR ''E'') \<and>
          (let digits = (case r of [] \<Rightarrow> [] | g # r' \<Rightarrow> if g = CHR ''+'' \<or> g = CHR ''-'' then r' else r)
           in digits \<noteq> [] \<and> (\<forall>d\<in>set digits. is_digit d)))"

definition fraction_ok :: "string \<Rightarrow> bool" where
  "fraction_ok s =
     (case s of
        [] \<Rightarrow> True
      | d # r \<Rightarrow>
          if d = CHR ''.'' then takeWhile is_digit r \<noteq> [] \<and> exponent_ok (dropWhile is_digit r)
          else exponent_ok s)"

definition valid_number :: "string \<Rightarrow> bool" where
  "valid_number s =
     (case (case s of [] \<Rightarrow> [] | m # r \<Rightarrow> if m = CHR ''-'' then r else s) of
        [] \<Rightarrow> False
      | d # r \<Rightarrow>
          if d = CHR ''0'' then fraction_ok r
          else is_digit d \<and> fraction_ok (dropWhile is_digit r))"

text \<open>
  A value that is neither a string nor a container: a run of characters up to the next
  white space or punctuation. The scanner accepts the three literals, the three
  non-finite numbers and the number pattern; after any of them only white space,
  a comma or a closing bracket can follow in a text that parses, so the run must be
  one of them as a whole. A number without fraction and exponent is converted by \<open>int\<close>,
  which by default refuses more than 4300 digits with a \<open>ValueError\<close>.
\<close>

definition default_max_str_digits :: nat where
  "default_max_str_digits = 4300"

definition atom_value :: "string \<Rightarrow> json option" where
  "atom_value a =
     (if a = ''null'' then Some JNull
      else if a = ''true'' then Some (JBool True)
      else if a = ''false'' then Some (JBool False)
      else if a = ''NaN'' \<or> a = ''Infinity'' \<or> a = ''-Infinity'' then Some (JNumber a)
      else if valid_number a then
        (if (\<forall>c\<in>set a. is_digit c \<or> c = CHR ''-'')
            \<and> default_max_str_digits < length (filter is_digit a)
         then None else Some (JNumber a))
      else None)"

definition atom_char :: "char \<Rightarrow> bool" where
  "atom_char c = (\<not> json_ws c \<and> \<not> json_punct c)"

definition punct_token :: "char \<Rightarrow> token" where
  "punct_token c =
     (if c = CHR ''{'' then TLBrace else if c = CHR ''}'' then TRBrace
      else if c = CHR ''['' then TLBracket else if c = CHR '']'' then TRBracket
      else if c = CHR '':'' then TColon else TComma)"

lemma scan_string_length:
  "scan_string acc s = Inr (str, rest) \<Longrightarrow> length rest < length s"
proof (induction acc s rule: scan_string.induct)
  case (1 acc)
  then show ?case by simp
next
  case (2 acc c cs)
  show ?case
  proof (cases "c = CHR 0x22")
    case True
    with "2.prems" show ?thesis by simp
  next
    case nq: False
    show ?thesis
    proof (cases "c = CHR 0x5C")
      case True
      with nq "2.prems" obtain ch r where u: "unescape cs = Inr (ch, r)"
        and sc: "scan_string (ch # acc) r = Inr (str, rest)"
        by (auto split: sum.splits)
      from "2.IH"(1) [OF nq True u refl sc] have "length rest < length r" .
      with unescape_length [OF u] show ?thesis by simp
    next
      case False
      with nq "2.prems" have c: "\<not> (of_char c :: nat) < 32"
        and sc: "scan_string (c # acc) cs = Inr (str, rest)"
        by (auto split: if_splits)
      from "2.IH"(2) [OF nq False c sc] show ?thesis by simp
    qed
  qed
qed

function lex :: "string \<Rightarrow> scan_error + token list" where
  "lex [] = Inr []"
| "lex (c # cs) =
     (if json_ws c then lex cs
      else if c = CHR 0x22 then
        (case scan_string [] cs of
           Inl e \<Rightarrow> Inl e
         | Inr (str, rest) \<Rightarrow> map_sum id ((#) (TString str)) (lex rest))
      else if json_punct c then map_sum id ((#) (punct_token c)) (lex cs)
      else
        (case atom_value (c # takeWhile atom_char cs) of
           None \<Rightarrow> Inl Malformed
         | Some v \<Rightarrow> map_sum id ((#) (TAtom v)) (lex (dropWhile atom_char cs))))"
  by pat_completeness auto
termination
  by (relation "measure length")
     (auto dest: scan_string_length simp: length_dropWhile_le le_imp_less_Suc)

text \<open>
  The parser: a stack of the containers that are open, and what may come next. Setting a
  member follows \<open>dict\<close>: a key that is already there keeps its place and takes the new
  value.
\<close>

datatype frame =
    InArray "json list"
  | InObject "(string \<times> json) list"
  | InMember "(string \<times> json) list" string

datatype expect = EValue | EFirst | EKey | EColon | EDelim | EEnd json

definition push_value :: "json \<Rightarrow> frame list \<Rightarrow> (expect \<times> frame list) option" where
  "push_value v stack =
     (case stack of
        [] \<Rightarrow> Some (EEnd v, [])
      | InArray vs # st \<Rightarrow> Some (EDelim, InArray (v # vs) # st)
      | InMember kvs k # st \<Rightarrow> Some (EDelim, InObject (AList.update k v kvs) # st)
      | InObject kvs # st \<Rightarrow> None)"

definition start_value :: "token \<Rightarrow> frame list \<Rightarrow> (expect \<times> frame list) option" where
  "start_value t stack =
     (case t of
        TString str \<Rightarrow> push_value (JString str) stack
      | TAtom v \<Rightarrow> push_value v stack
      | TLBracket \<Rightarrow> Some (EFirst, InArray [] # stack)
      | TLBrace \<Rightarrow> Some (EFirst, InObject [] # stack)
      | _ \<Rightarrow> None)"

definition parse_step :: "expect \<times> frame list \<Rightarrow> token \<Rightarrow> (expect \<times> frame list) option" where
  "parse_step st t =
     (case st of
        (EValue, stack) \<Rightarrow> start_value t stack
      | (EFirst, InArray vs # stack) \<Rightarrow>
          (if t = TRBracket then push_value (JArray (rev vs)) stack
           else start_value t (InArray vs # stack))
      | (EFirst, InObject kvs # stack) \<Rightarrow>
          (case t of
             TRBrace \<Rightarrow> push_value (JObject kvs) stack
           | TString k \<Rightarrow> Some (EColon, InMember kvs k # stack)
           | _ \<Rightarrow> None)
      | (EKey, InObject kvs # stack) \<Rightarrow>
          (case t of TString k \<Rightarrow> Some (EColon, InMember kvs k # stack) | _ \<Rightarrow> None)
      | (EColon, stack) \<Rightarrow> (if t = TColon then Some (EValue, stack) else None)
      | (EDelim, InArray vs # stack) \<Rightarrow>
          (if t = TComma then Some (EValue, InArray vs # stack)
           else if t = TRBracket then push_value (JArray (rev vs)) stack
           else None)
      | (EDelim, InObject kvs # stack) \<Rightarrow>
          (if t = TComma then Some (EKey, InObject kvs # stack)
           else if t = TRBrace then push_value (JObject kvs) stack
           else None)
      | _ \<Rightarrow> None)"

fun parse_tokens :: "expect \<times> frame list \<Rightarrow> token list \<Rightarrow> json option" where
  "parse_tokens st [] = (case st of (EEnd v, []) \<Rightarrow> Some v | _ \<Rightarrow> None)"
| "parse_tokens st (t # ts) =
     (case parse_step st t of None \<Rightarrow> None | Some st' \<Rightarrow> parse_tokens st' ts)"

text \<open>
  \<open>json.loads\<close>. \<open>Inl Malformed\<close> stands for the \<open>ValueError\<close> it raises: a
  \<open>JSONDecodeError\<close> for a text that is not JSON, or the one of an integer with too many
  digits. \<open>Inl Unmodelled\<close> marks a text with a \<open>\u\<close> escape beyond the characters of the
  model. The depth of nesting at which the interpreter gives up with \<open>RecursionError\<close>
  depends on the state of its stack and is left out.
\<close>

definition json_loads :: "string \<Rightarrow> scan_error + json" where
  "json_loads s =
     (case lex s of
        Inl e \<Rightarrow> Inl e
      | Inr ts \<Rightarrow> (case parse_tokens (EValue, []) ts of None \<Rightarrow> Inl Malformed | Some v \<Rightarrow> Inr v))"

section \<open>The secondary repair\<close>

text \<open>
  \<open>re.findall(r'"docs":(\[.*?\])', broken_json)\<close>: at a position where the text goes on
  with \<open>"docs":[\<close>, the lazy \<open>.*?\<close> runs to the first closing bracket and cannot pass a
  line feed. The group is the span from the opening to the closing bracket; the scan
  goes on behind it. Where the attempt fails the scan moves one character on.
\<close>

definition docs_prefix :: string where
  "docs_prefix = CHR 0x22 # ''docs'' @ CHR 0x22 # '':[''"

definition in_span :: "char \<Rightarrow> bool" where
  "in_span c = (c \<noteq> CHR '']'' \<and> c \<noteq> CHR 0x0A)"

lemma docs_rest_shorter:
  assumes "dropWhile in_span (drop (length docs_prefix) (c # cs)) = d # rest"
  shows "length rest < Suc (length cs)"
proof -
  have "length (dropWhile in_span (drop (length docs_prefix) (c # cs)))
          \<le> length (drop (length docs_prefix) (c # cs))"
    by (rule length_dropWhile_le)
  with assms show ?thesis by (simp add: docs_prefix_def)
qed

function findall_docs :: "string \<Rightarrow> string list" where
  "findall_docs [] = []"
| "findall_docs (c # cs) =
     (if prefix docs_prefix (c # cs) then
        (let after = drop (length docs_prefix) (c # cs) in
         case dropWhile in_span after of
           [] \<Rightarrow> findall_docs cs
         | d # rest \<Rightarrow>
             if d = CHR '']'' then (CHR ''['' # takeWhile in_span after @ [CHR '']'']) # findall_docs rest
             else findall_docs cs)
      else findall_docs cs)"
  by pat_completeness auto
termination
  by (relation "measure length") (auto dest: docs_rest_shorter)

text \<open>\<open>repair_docs_as_single_string\<close>; the slice \<open>[1:-1]\<close> drops the first and the last character.\<close>

definition repair_docs_as_single_string :: "string \<Rightarrow> string" where
  "repair_docs_as_single_string docs_string =
     (let content_without_brackets = butlast (tl docs_string);
          escaped_quotes_content = str_replace [CHR 0x22] [CHR 0x5C, CHR 0x22] content_without_brackets;
          repaired_content = str_replace [CHR 0x5C, CHR 0x5C, CHR ''n''] [CHR 0x5C, CHR ''n''] escaped_quotes_content;
          repaired_string = CHR 0x22 # repaired_content @ [CHR 0x22]
      in repaired_string)"

text \<open>The loop over the fields found: each one is replaced wherever its text occurs.\<close>

fun repair_docs_loop :: "string list \<Rightarrow> string \<Rightarrow> string" where
  "repair_docs_loop [] repaired_content = repaired_content"
| "repair_docs_loop (docs_content # docs_fields) repaired_content =
     repair_docs_loop docs_fields
       (str_replace docs_content
          (CHR ''['' # repair_docs_as_single_string docs_content @ [CHR '']'']) repaired_content)"

definition repair_broken_json :: "string \<Rightarrow> string" where
  "repair_broken_json broken_json = repair_docs_loop (findall_docs broken_json) broken_json"

section \<open>The matching engine\<close>

subsection \<open>Python operations on parsed values\<close>

text \<open>\<open>v[key]\<close> with a string key: only a \<open>dict\<close> can answer, with \<open>KeyError\<close> for a missing key.\<close>

definition py_getitem :: "json \<Rightarrow> string \<Rightarrow> py_error + json" where
  "py_getitem v key =
     (case v of
        JObject members \<Rightarrow> (case map_of members key of None \<Rightarrow> Inl KeyError | Some x \<Rightarrow> Inr x)
      | _ \<Rightarrow> Inl TypeError)"

text \<open>
  What a \<open>for\<close> over a parsed value goes through: the elements of a list, the keys of a
  \<open>dict\<close>, the characters of a string; anything else is not iterable.
\<close>

definition py_iter :: "json \<Rightarrow> py_error + json list" where
  "py_iter v =
     (case v of
        JArray xs \<Rightarrow> Inr xs
      | JObject members \<Rightarrow> Inr (map (\<lambda>m. JString (fst m)) members)
      | JString str \<Rightarrow> Inr (map (\<lambda>c. JString [c]) str)
      | _ \<Rightarrow> Inl TypeError)"

text \<open>\<open>[endpoint["name"] for endpoint in abi_json["endpoints"]]\<close>\<close>

fun endpoint_names :: "json list \<Rightarrow> py_error + json list" where
  "endpoint_names [] = Inr []"
| "endpoint_names (endpoint # endpoints) =
     (case py_getitem endpoint ''name'' of
        Inl e \<Rightarrow> Inl e
      | Inr name \<Rightarrow> (case endpoint_names endpoints of Inl e \<Rightarrow> Inl e | Inr names \<Rightarrow> Inr (name # names)))"

definition function_names_of :: "json \<Rightarrow> py_error + json list" where
  "function_names_of abi_json =
     (case py_getitem abi_json ''endpoints'' of
        Inl e \<Rightarrow> Inl e
      | Inr endpoints \<Rightarrow> (case py_iter endpoints of Inl e \<Rightarrow> Inl e | Inr es \<Rightarrow> endpoint_names es))"

text \<open>\<open>s.encode('unicode_escape').decode('utf-8')\<close> on characters below 256.\<close>

definition hex_digit :: "nat \<Rightarrow> char" where
  "hex_digit n = ''0123456789abcdef'' ! (n mod 16)"

definition escape_char :: "char \<Rightarrow> string" where
  "escape_char c =
     (if c = CHR 0x5C then [CHR 0x5C, CHR 0x5C]
      else if c = CHR 0x09 then [CHR 0x5C, CHR ''t'']
      else if c = CHR 0x0A then [CHR 0x5C, CHR ''n'']
      else if c = CHR 0x0D then [CHR 0x5C, CHR ''r'']
      else if (of_char c :: nat) < 32 \<or> 127 \<le> (of_char c :: nat)
        then [CHR 0x5C, CHR ''x'', hex_digit (of_char c div 16), hex_digit (of_char c)]
      else [c])"

definition unicode_escape :: "string \<Rightarrow> string" where
  "unicode_escape s = concat (map escape_char s)"

text \<open>
  The two nested \<open>try\<close> blocks around \<open>json.loads\<close>: the secondary repair is applied to
  the text as it came, and only when the escaped text does not parse. A text of the
  secondary repair that the model of \<open>json.loads\<close> cannot follow is marked as such.
\<close>

definition load_abi :: "string \<Rightarrow> py_error + json" where
  "load_abi abi_json_str =
     (case json_loads (unicode_escape abi_json_str) of
        Inr abi_json \<Rightarrow> Inr abi_json
      | Inl _ \<Rightarrow>
          (case json_loads (repair_broken_json abi_json_str) of
             Inr abi_json \<Rightarrow> Inr abi_json
           | Inl Malformed \<Rightarrow> Inl ValueError
           | Inl Unmodelled \<Rightarrow> Inl Unmodelled_text))"

subsection \<open>The world outside\<close>

text \<open>
  The gateway, the random generator and the file system are outside the program. They
  are given as functions on a state of the world \<open>'w\<close> that the run threads through its
  calls: \<open>query\<close> is \<open>query_function\<close>, which returns the parsed response or raises,
  \<open>sample\<close> is what \<open>random.sample\<close> draws from a population that is large enough,
  and \<open>write_file\<close> is opening the file of a descriptor for writing and dumping the
  descriptor into it, which raises when the file cannot be opened.
\<close>

record 'w env =
  query :: "'w \<Rightarrow> string \<Rightarrow> json \<Rightarrow> (py_error + json) \<times> 'w"
  sample :: "'w \<Rightarrow> json list \<Rightarrow> nat \<Rightarrow> json list \<times> 'w"
  write_file :: "'w \<Rightarrow> string \<Rightarrow> py_error option \<times> 'w"

text \<open>
  What a run does to the outside, in order: a query with the return code read from its
  response (or the exception), a descriptor file written, the relationship file written,
  and the two messages printed. The relationship file lies in the export directory, which
  the run has made before; writing it is taken to succeed.
\<close>

datatype effect =
    Query string json "py_error + json"
  | WriteAbi string json
  | PrintMatch string string
  | WriteRelationship string "(string \<times> string) list"
  | PrintRelationship string

record 'w run =
  world :: 'w
  relationship_dict :: "(string \<times> string) list"
  trace :: "effect list"

definition NUMBER_OF_MATCHES :: nat where
  "NUMBER_OF_MATCHES = 5"

text \<open>\<open>response["data"]["data"]["returnCode"]\<close>\<close>

definition return_code_of :: "json \<Rightarrow> py_error + json" where
  "return_code_of response =
     (case py_getitem response ''data'' of
        Inl e \<Rightarrow> Inl e
      | Inr d \<Rightarrow> (case py_getitem d ''data'' of Inl e \<Rightarrow> Inl e | Inr d' \<Rightarrow> py_getitem d' ''returnCode''))"

text \<open>\<open>return_code in ["function not found", "contract not found"]\<close>\<close>

definition is_rejection :: "json \<Rightarrow> bool" where
  "is_rejection return_code =
     (return_code = JString ''function not found'' \<or> return_code = JString ''contract not found'')"

text \<open>\<open>query_function(sc_address, func_name)["data"]["data"]["returnCode"]\<close>\<close>

definition probe :: "'w env \<Rightarrow> string \<Rightarrow> json \<Rightarrow> 'w run \<Rightarrow> (py_error + json) \<times> 'w run" where
  "probe env sc_address func_name r =
     (case query env (world r) sc_address func_name of
        (answer, w) \<Rightarrow>
          (let outcome = (case answer of Inl e \<Rightarrow> Inl e | Inr response \<Rightarrow> return_code_of response)
           in (outcome, r\<lparr>world := w, trace := trace r @ [Query sc_address func_name outcome]\<rparr>)))"

text \<open>\<open>random.sample(population, k)\<close> raises \<open>ValueError\<close> when the population is smaller than \<open>k\<close>.\<close>

definition random_sample :: "'w env \<Rightarrow> json list \<Rightarrow> nat \<Rightarrow> 'w \<Rightarrow> (py_error + json list) \<times> 'w" where
  "random_sample env population k w =
     (if length population < k then (Inl ValueError, w)
      else (case sample env w population k of (chosen, w') \<Rightarrow> (Inr chosen, w')))"

definition random_functions_of :: "'w env \<Rightarrow> json list \<Rightarrow> 'w \<Rightarrow> (py_error + json list) \<times> 'w" where
  "random_functions_of env function_names w =
     (if length function_names > NUMBER_OF_MATCHES - 1
      then random_sample env (tl function_names) NUMBER_OF_MATCHES w
      else (Inr (tl function_names), w))"

text \<open>The loop over \<open>random_functions\<close>; it probes every function, also after a rejection.\<close>

fun count_matches ::
  "'w env \<Rightarrow> string \<Rightarrow> json list \<Rightarrow> nat \<Rightarrow> 'w run \<Rightarrow> (py_error + nat) \<times> 'w run" where
  "count_matches env sc_address [] match_count r = (Inr match_count, r)"
| "count_matches env sc_address (random_func # random_functions) match_count r =
     (case probe env sc_address random_func r of
        (Inl e, r') \<Rightarrow> (Inl e, r')
      | (Inr return_code, r') \<Rightarrow>
          count_matches env sc_address random_functions
            (if \<not> is_rejection return_code then match_count + 1 else match_count) r')"

text \<open>\<open>os.path.join\<close> on two components, and the path that \<open>export_abi_json\<close> writes to.\<close>

definition path_join :: "string \<Rightarrow> string \<Rightarrow> string" where
  "path_join a b =
     (if b \<noteq> [] \<and> hd b = CHR ''/'' then b
      else if a = [] \<or> last a = CHR ''/'' then a @ b
      else a @ ''/'' @ b)"

definition export_abi_json ::
  "'w env \<Rightarrow> json \<Rightarrow> json \<Rightarrow> string \<Rightarrow> 'w \<Rightarrow> (py_error + string) \<times> 'w" where
  "export_abi_json env abi_json name_field subdomain_directory w =
     (case name_field of
        JString name \<Rightarrow>
          (let filename_base = str_replace '' '' ''_'' name;
               filename = filename_base @ ''.json'';
               file_path = path_join subdomain_directory filename
           in case write_file env w file_path of
                (Some e, w') \<Rightarrow> (Inl e, w')
              | (None, w') \<Rightarrow> (Inr file_path, w'))
      | _ \<Rightarrow> (Inl AttributeError, w))"

text \<open>
  The body of the loop over the addresses, for one address. The result says whether an
  exception left the body.
\<close>

definition match_address ::
  "'w env \<Rightarrow> string \<Rightarrow> json \<Rightarrow> json list \<Rightarrow> json \<Rightarrow> string \<Rightarrow> 'w run \<Rightarrow> py_error option \<times> 'w run" where
  "match_address env subdomain_directory abi_json function_names func_name sc_address r =
     (case probe env sc_address func_name r of
        (Inl e, r1) \<Rightarrow> (Some e, r1)
      | (Inr return_code, r1) \<Rightarrow>
          if \<not> is_rejection return_code then
            (case random_functions_of env function_names (world r1) of
               (Inl e, w2) \<Rightarrow> (Some e, r1\<lparr>world := w2\<rparr>)
             | (Inr random_functions, w2) \<Rightarrow>
                 (case count_matches env sc_address random_functions 0 (r1\<lparr>world := w2\<rparr>) of
                    (Inl e, r3) \<Rightarrow> (Some e, r3)
                  | (Inr match_count, r3) \<Rightarrow>
                      if match_count = length random_functions then
                        (case py_getitem abi_json ''name'' of
                           Inl e \<Rightarrow> (Some e, r3)
                         | Inr name_field \<Rightarrow>
                             (case export_abi_json env abi_json name_field subdomain_directory
                                     (world r3) of
                                (Inl e, w4) \<Rightarrow> (Some e, r3\<lparr>world := w4\<rparr>)
                              | (Inr abi_json_path, w4) \<Rightarrow>
                                  (None, r3\<lparr>world := w4,
                                            relationship_dict :=
                                              AList.update sc_address abi_json_path (relationship_dict r3),
                                            trace := trace r3 @ [WriteAbi abi_json_path abi_json,
                                                                 PrintMatch sc_address abi_json_path]\<rparr>)))
                      else (None, r3)))
          else (None, r1))"

fun match_addresses ::
  "'w env \<Rightarrow> string \<Rightarrow> json \<Rightarrow> json list \<Rightarrow> json \<Rightarrow> string list \<Rightarrow> 'w run \<Rightarrow> py_error option \<times> 'w run" where
  "match_addresses env subdomain_directory abi_json function_names func_name [] r = (None, r)"
| "match_addresses env subdomain_directory abi_json function_names func_name (sc_address # sc_addresses) r =
     (case match_address env subdomain_directory abi_json function_names func_name sc_address r of
        (Some e, r') \<Rightarrow> (Some e, r')
      | (None, r') \<Rightarrow>
          match_addresses env subdomain_directory abi_json function_names func_name sc_addresses r')"

text \<open>The body of the outer \<open>try\<close>, for one descriptor text.\<close>

definition match_descriptor ::
  "'w env \<Rightarrow> string \<Rightarrow> string list \<Rightarrow> string \<Rightarrow> 'w run \<Rightarrow> py_error option \<times> 'w run" where
  "match_descriptor env subdomain_directory sc_addresses abi_json_str r =
     (case load_abi abi_json_str of
        Inl e \<Rightarrow> (Some e, r)
      | Inr abi_json \<Rightarrow>
          (case function_names_of abi_json of
             Inl e \<Rightarrow> (Some e, r)
           | Inr function_names \<Rightarrow>
               (case function_names of
                  [] \<Rightarrow> (Some IndexError, r)
                | func_name # _ \<Rightarrow>
                    match_addresses env subdomain_directory abi_json function_names func_name
                      sc_addresses r)))"

text \<open>The loop over the descriptors: \<open>except Exception: pass\<close> goes on with the next one.\<close>

fun match_all :: "'w env \<Rightarrow> string \<Rightarrow> string list \<Rightarrow> string list \<Rightarrow> 'w run \<Rightarrow> 'w run" where
  "match_all env subdomain_directory sc_addresses [] r = r"
| "match_all env subdomain_directory sc_addresses (abi_json_str # abi_jsons) r =
     match_all env subdomain_directory sc_addresses abi_jsons
       (snd (match_descriptor env subdomain_directory sc_addresses abi_json_str r))"

text \<open>
  \<open>find_matching_contracts\<close>, with the export directory in place of the URL it is made
  from, and the state of the world at the start. The dictionary starts empty.
\<close>

definition initial_run :: "'w \<Rightarrow> 'w run" where
  "initial_run w = \<lparr>world = w, relationship_dict = [], trace = []\<rparr>"

definition find_matching_contracts ::
  "'w env \<Rightarrow> string list \<Rightarrow> string list \<Rightarrow> string \<Rightarrow> 'w \<Rightarrow> 'w run" where
  "find_matching_contracts env abi_jsons sc_addresses subdomain_directory w =
     (let r = match_all env subdomain_directory sc_addresses abi_jsons (initial_run w);
          relationship_file_path = path_join subdomain_directory ''relationship.json''
      in r\<lparr>trace := trace r @ [WriteRelationship relationship_file_path (relationship_dict r),
                               PrintRelationship relationship_file_path]\<rparr>)"

text \<open>
  A world for examples: a gateway on which a fixed address answers \<open>ok\<close> for every
  function and every other address answers \<open>function not found\<close>, a generator that
  draws the first elements of the population, and a file system on which every file
  can be written; the state of the world counts the queries and the draws.
\<close>

definition gateway_response :: "string \<Rightarrow> json" where
  "gateway_response code =
     JObject [(''data'', JObject [(''data'', JObject [(''returnCode'', JString code)])])]"

definition example_env :: "string \<Rightarrow> nat env" where
  "example_env live =
     \<lparr>query = (\<lambda>w sc_address func_name.
         (Inr (gateway_response (if sc_address = live then ''ok'' else ''function not found'')), w + 1)),
      sample = (\<lambda>w population k. (take k population, w + 1)),
      write_file = (\<lambda>w file_path. (None, w))\<rparr>"

text \<open>
  The same world with a gateway that cannot be reached for one address: the query for
  it raises, every other address answers \<open>ok\<close>.
\<close>

definition unreachable_env :: "string \<Rightarrow> nat env" where
  "unreachable_env down =
     \<lparr>query = (\<lambda>w sc_address func_name.
         (if sc_address = down then Inl RequestException else Inr (gateway_response ''ok''), w + 1)),
      sample = (\<lambda>w population k. (take k population, w + 1)),
      write_file = (\<lambda>w file_path. (None, w))\<rparr>"

subsection \<open>Reading a trace\<close>

text \<open>A query that came back with a return code outside the two rejection codes.\<close>

definition confirmed :: "effect \<Rightarrow> bool" where
  "confirmed q = (case q of Query _ _ (Inr return_code) \<Rightarrow> \<not> is_rejection return_code | _ \<Rightarrow> False)"

text \<open>A query that came back with a return code, whatever the code.\<close>

definition answered :: "effect \<Rightarrow> bool" where
  "answered q = (case q of Query _ _ (Inr return_code) \<Rightarrow> True | _ \<Rightarrow> False)"

text \<open>The address and the function of a query.\<close>

definition queried :: "effect \<Rightarrow> (string \<times> json) option" where
  "queried q = (case q of Query sc_address func_name _ \<Rightarrow> Some (sc_address, func_name) | _ \<Rightarrow> None)"

text \<open>What a step from \<open>r\<close> to \<open>r'\<close> added to the trace.\<close>

definition new_effects :: "'w run \<Rightarrow> 'w run \<Rightarrow> effect list" where
  "new_effects r r' = drop (length (trace r)) (trace r')"

text \<open>
  The dictionary that a list of effects leaves behind: every match that was recorded,
  and printed, sets its address.
\<close>

fun replay :: "effect list \<Rightarrow> (string \<times> string) list \<Rightarrow> (string \<times> string) list" where
  "replay [] d = d"
| "replay (e # es) d =
     replay es (case e of PrintMatch sc_address abi_json_path \<Rightarrow> AList.update sc_address abi_json_path d | _ \<Rightarrow> d)"

text \<open>The path of the last match recorded for an address.\<close>

fun last_recorded :: "string \<Rightarrow> effect list \<Rightarrow> string option" where
  "last_recorded a [] = None"
| "last_recorded a (e # es) =
     (case last_recorded a es of
        Some p \<Rightarrow> Some p
      | None \<Rightarrow> (case e of PrintMatch a' p \<Rightarrow> if a' = a then Some p else None | _ \<Rightarrow> None))"

text \<open>Effects that write the relationship file, and lists of effects without one.\<close>

definition is_serialization :: "effect \<Rightarrow> bool" where
  "is_serialization e = (case e of WriteRelationship _ _ \<Rightarrow> True | _ \<Rightarrow> False)"

definition quiet :: "effect list \<Rightarrow> bool" where
  "quiet es = (\<forall>e\<in>set es. \<not> is_serialization e)"

section \<open>Free text in a \<open>docs\<close> field\<close>

text \<open>
  Free text as it stands between the brackets of a hand-edited \<open>docs\<close> field when the
  secondary repair sees it: plain characters, double quotes, and newline markers, which
  the primary repair has left as two backslashes and an \<open>n\<close>. A plain character is
  any character from the space on that is not a double quote, a backslash or a closing
  bracket. Of each piece: how it is written in the field, how it is written after the
  quotes are escaped, how after the markers are collapsed too, and the character it
  stands for.
\<close>

datatype piece = Plain char | Quote | Newline_marker

definition plain_char :: "char \<Rightarrow> bool" where
  "plain_char c = (c \<noteq> CHR 0x22 \<and> c \<noteq> CHR 0x5C \<and> c \<noteq> CHR '']'' \<and> 32 \<le> (of_char c :: nat))"

definition freeform :: "piece list \<Rightarrow> bool" where
  "freeform ps = (\<forall>p\<in>set ps. case p of Plain c \<Rightarrow> plain_char c | _ \<Rightarrow> True)"

fun written :: "piece \<Rightarrow> string" where
  "written (Plain c) = [c]"
| "written Quote = [CHR 0x22]"
| "written Newline_marker = [CHR 0x5C, CHR 0x5C, CHR ''n'']"

fun escaped :: "piece \<Rightarrow> string" where
  "escaped (Plain c) = [c]"
| "escaped Quote = [CHR 0x5C, CHR 0x22]"
| "escaped Newline_marker = [CHR 0x5C, CHR ''n'']"

fun meant :: "piece \<Rightarrow> char" where
  "meant (Plain c) = c"
| "meant Quote = CHR 0x22"
| "meant Newline_marker = CHR 0x0A"

fun half_escaped :: "piece \<Rightarrow> string" where
  "half_escaped (Plain c) = [c]"
| "half_escaped Quote = [CHR 0x5C, CHR 0x22]"
| "half_escaped Newline_marker = [CHR 0x5C, CHR 0x5C, CHR ''n'']"

section \<open>Texts with several \<open>docs\<close> fields\<close>

text \<open>
  A text cut at its \<open>docs\<close> fields: each field is given by the text in front of it, up
  to its \<open>"docs":[\<close>, and by what stands between its brackets; behind the closing
  bracket of the last field comes the tail. \<open>text_of\<close> is the text, \<open>repaired_of\<close> the
  same text with every field holding the one string made from it.
\<close>

fun text_of :: "(string \<times> string) list \<Rightarrow> string \<Rightarrow> string" where
  "text_of [] tail = tail"
| "text_of ((gap, body) # flds) tail = gap @ docs_prefix @ body @ CHR '']'' # text_of flds tail"

fun repaired_of :: "(string \<times> string) list \<Rightarrow> string \<Rightarrow> string" where
  "repaired_of [] tail = tail"
| "repaired_of ((gap, body) # flds) tail =
     gap @ docs_prefix @ repair_docs_as_single_string (CHR ''['' # body @ '']'') @ CHR '']''
       # repaired_of flds tail"

text \<open>
  The fields are the ones the pattern finds, and each of them is alone with its text:
  between the brackets there is neither a closing bracket nor a line feed, no other
  \<open>"docs":[\<close> begins in the text in front of a field or in the tail, and when the turn
  of a field comes, with \<open>front\<close> the text in front of it as repaired so far, the text
  of the field from bracket to bracket occurs neither before its place nor behind it.
\<close>

fun separate :: "string \<Rightarrow> (string \<times> string) list \<Rightarrow> string \<Rightarrow> bool" where
  "separate front [] tail = (findall_docs tail = [])"
| "separate front ((gap, body) # flds) tail =
     (let span = CHR ''['' # body @ '']'';
          before = front @ gap @ butlast docs_prefix
      in (\<forall>c\<in>set body. in_span c)
         \<and> \<not> sublist docs_prefix (gap @ butlast docs_prefix)
         \<and> \<not> sublist span (before @ butlast span)
         \<and> \<not> sublist span (text_of flds tail)
         \<and> separate (before @ CHR ''['' # repair_docs_as_single_string span @ '']'') flds tail)"

section \<open>Texts without a key to quote\<close>

text \<open>
  Whether the key pattern of the primary repair matches somewhere in the text: some
  identifier at a word boundary is followed, after optional white space, by a colon.
\<close>

fun has_bare_key :: "bool \<Rightarrow> string \<Rightarrow> bool" where
  "has_bare_key prev [] = False"
| "has_bare_key prev (c # cs) =
     ((\<not> prev \<and> ident_start c \<and> key_follows (dropWhile is_word cs))
      \<or> has_bare_key (is_word c) cs)"

section \<open>Properties of the key-quoting step\<close>

text \<open>
  Whether the character before the end of \<open>pre\<close> is a word character, when the scan
  entered \<open>pre\<close> with the flag \<open>prev\<close>.
\<close>

definition end_flag :: "bool \<Rightarrow> string \<Rightarrow> bool" where
  "end_flag prev pre = (if pre = [] then prev else is_word (last pre))"




lemma alnum_word: "is_alnum c \<Longrightarrow> is_word c"
  by (simp add: is_word_def latin1_word_def Let_def)










section \<open>Properties of the brace scanner\<close>

lemma repair_blobs_unbalanced:
  "\<exists>occurrence\<in>set occurrences. extract_matching_braces_content js_code (fst occurrence) = None
   \<Longrightarrow> repair_blobs js_code occurrences abi_jsons = Inl TypeError"
  by (induction occurrences arbitrary: abi_jsons) (auto split: option.splits)

text \<open>
  C3. In the text \<open>{buildInfo:1} {buildInfo\<close> the first marker sits in a balanced blob
  and the second behind an opening brace that is never closed. The scan from the second
  brace produces no blob, and the loop then ends with \<open>TypeError\<close>: the first blob is
  lost with it, where the claim has the condition passed over silently.
\<close>

theorem unbalanced_blob_raises:
  "find_buildinfo_and_nearest_opening_brace ''{buildInfo:1} {buildInfo'' = [(0, 1), (14, 15)]
   \<and> extract_matching_braces_content ''{buildInfo:1} {buildInfo'' 0 = Some ''{buildInfo:1}''
   \<and> extract_matching_braces_content ''{buildInfo:1} {buildInfo'' 14 = None
   \<and> extract_abi_jsons ''{buildInfo:1} {buildInfo'' = Inl TypeError"
  by (intro conjI; code_simp)

section \<open>Properties of the address extractor\<close>

lemma sc_prefix_word: "\<forall>x\<in>set sc_prefix. is_word x"
  by (simp add: sc_prefix_def is_word_def latin1_word_def Let_def is_alnum_def is_digit_def is_alpha_def)

lemma prefix_words_append:
  assumes "\<forall>x\<in>set p. is_word x" "s \<noteq> []" "\<not> is_word (last s)"
  shows "prefix p (s @ r) = prefix p s"
proof
  assume pr: "prefix p (s @ r)"
  show "prefix p s"
  proof (cases "length p \<le> length s")
    case True
    with pr show ?thesis by (metis prefix_def append_eq_append_conv_if prefix_length_prefix prefixI)
  next
    case False
    then have "prefix s p" using pr by (metis prefix_length_prefix prefixI nat_le_linear)
    then have "set s \<subseteq> set p" by (rule set_mono_prefix)
    with assms show ?thesis by (metis last_in_set subsetD)
  qed
next
  assume "prefix p s" then show "prefix p (s @ r)" by (simp add: prefix_prefix)
qed

lemma match_sc_context:
  assumes "s \<noteq> []" "\<not> is_word (last s)"
  shows "match_sc (s @ r) = map_option (\<lambda>(tok, rest). (tok, rest @ r)) (match_sc s)"
proof (cases "prefix sc_prefix s")
  case False
  then have "\<not> prefix sc_prefix (s @ r)"
    using prefix_words_append [OF sc_prefix_word assms] by simp
  with False show ?thesis by (simp add: match_sc_def Let_def)
next
  case True
  then have pr: "prefix sc_prefix (s @ r)" by (simp add: prefix_prefix)
  let ?d = "drop (length sc_prefix) s"
  from True have len: "length sc_prefix \<le> length s" by (rule prefix_length_le)
  then have dr: "drop (length sc_prefix) (s @ r) = ?d @ r" by simp
  have "?d \<noteq> []"
  proof
    assume "?d = []"
    with len True have "s = sc_prefix" by (metis append_Nil2 append_take_drop_id prefix_def append_eq_conv_conj)
    with assms sc_prefix_word show False by (metis last_in_set)
  qed
  then have "last ?d = last s" using len by simp
  with assms \<open>?d \<noteq> []\<close> have ex: "\<exists>x\<in>set ?d. \<not> is_alnum x"
    by (metis last_in_set alnum_word)
  have tw: "takeWhile is_alnum (?d @ r) = takeWhile is_alnum ?d"
    using ex by (induction ?d) auto
  have dw: "dropWhile is_alnum (?d @ r) = dropWhile is_alnum ?d @ r"
    using ex by (induction ?d) auto
  have ne: "dropWhile is_alnum ?d \<noteq> []" using ex by auto
  have m: "match_sc (s @ r) =
     (if prefix sc_prefix (s @ r) \<and> takeWhile is_alnum ?d \<noteq> []
          \<and> (case dropWhile is_alnum ?d @ r of [] \<Rightarrow> True | d # _ \<Rightarrow> \<not> is_word d)
      then Some (sc_prefix @ takeWhile is_alnum ?d, dropWhile is_alnum ?d @ r) else None)"
    unfolding match_sc_def Let_def dr tw dw ..
  obtain a l where al: "dropWhile is_alnum ?d = a # l" using ne by (cases "dropWhile is_alnum ?d") auto
  show ?thesis
    unfolding m using True pr al by (simp add: match_sc_def Let_def)
qed


lemma match_sc_parts:
  assumes "match_sc s = Some (tok, rest)"
  shows "s = tok @ rest" "tok \<noteq> []" "\<forall>x\<in>set tok. is_word x"
proof -
  let ?d = "drop (length sc_prefix) s"
  from assms have p: "prefix sc_prefix s" and t: "tok = sc_prefix @ takeWhile is_alnum ?d"
    and r: "rest = dropWhile is_alnum ?d"
    by (auto simp: match_sc_def Let_def split: if_splits)
  from p have "s = sc_prefix @ ?d" by (metis prefix_def append_eq_conv_conj)
  then show "s = tok @ rest" using t r by (metis append.assoc takeWhile_dropWhile_id)
  show "tok \<noteq> []" using t by (simp add: sc_prefix_def)
  have "\<forall>x\<in>set (takeWhile is_alnum ?d). is_word x"
    by (auto dest: set_takeWhileD alnum_word)
  then show "\<forall>x\<in>set tok. is_word x" using t sc_prefix_word by auto
qed

lemma findall_sc_append:
  "\<not> end_flag prev pre \<Longrightarrow> findall_sc prev (pre @ r) = findall_sc prev pre @ findall_sc False r"
proof (induction prev pre rule: findall_sc.induct)
  case (1 prev)
  then show ?case by (simp add: end_flag_def)
next
  case (2 prev c cs)
  let ?s = "c # cs"
  from "2.prems" have nl: "\<not> is_word (last ?s)" by (simp add: end_flag_def)
  have ctx: "match_sc (?s @ r) = map_option (\<lambda>(tok, rest). (tok, rest @ r)) (match_sc ?s)"
    using nl by (intro match_sc_context) auto
  show ?case
  proof (cases "if prev then None else match_sc ?s")
    case None
    then have n': "(if prev then None else match_sc (?s @ r)) = None"
      using ctx by (auto split: if_splits)
    have "\<not> end_flag (is_word c) cs" using "2.prems" by (auto simp: end_flag_def split: if_splits)
    with "2.IH"(1) None have "findall_sc (is_word c) (cs @ r) = findall_sc (is_word c) cs @ findall_sc False r"
      by simp
    then show ?thesis using None n' by (auto split: if_splits)
  next
    case (Some tr)
    obtain tok rest where tr: "tr = (tok, rest)" by (cases tr)
    from Some tr have m: "match_sc ?s = Some (tok, rest)" by (auto split: if_splits)
    from Some tr ctx have s': "(if prev then None else match_sc (?s @ r)) = Some (tok, rest @ r)"
      by (auto split: if_splits)
    note parts = match_sc_parts [OF m]
    have "rest \<noteq> []"
    proof
      assume "rest = []"
      with parts have "last ?s = last tok" "tok \<noteq> []" by auto
      with parts(3) nl show False by (metis last_in_set)
    qed
    then have "last rest = last ?s" using parts(1) by (metis last_appendR)
    with nl \<open>rest \<noteq> []\<close> have "\<not> end_flag True rest" by (simp add: end_flag_def)
    with "2.IH"(2) Some tr have "findall_sc True (rest @ r) = findall_sc True rest @ findall_sc False r"
      by simp
    then show ?thesis using Some tr s' by (auto split: if_splits)
  qed
qed

lemma match_sc_token:
  assumes "\<forall>x\<in>set body. is_alnum x" "body \<noteq> []" "post = [] \<or> \<not> is_word (hd post)"
  shows "match_sc (sc_prefix @ body @ post) = Some (sc_prefix @ body, post)"
proof -
  have na: "post = [] \<or> \<not> is_alnum (hd post)" using assms(3) by (auto dest: alnum_word)
  have tw: "takeWhile is_alnum (body @ post) = body"
    using assms(1) na by (cases post) (auto simp: takeWhile_append2)
  have dw: "dropWhile is_alnum (body @ post) = post"
    using assms(1) na by (cases post) (auto simp: dropWhile_append2)
  have dr: "drop (length sc_prefix) (sc_prefix @ body @ post) = body @ post" by simp
  show ?thesis
    unfolding match_sc_def Let_def dr tw dw using assms(2,3) by (cases post) simp_all
qed

lemma findall_sc_nonword_start:
  "post = [] \<or> \<not> is_word (hd post) \<Longrightarrow> findall_sc True post = findall_sc False post"
proof (cases post)
  case Nil
  then show ?thesis by simp
next
  case (Cons c cs)
  assume "post = [] \<or> \<not> is_word (hd post)"
  with Cons have "\<not> is_word c" by simp
  then have "c \<noteq> CHR ''e''" by (auto simp: is_word_def latin1_word_def Let_def is_alnum_def is_alpha_def)
  then have "match_sc (c # cs) = None" by (simp add: match_sc_def Let_def sc_prefix_def)
  with Cons show ?thesis by simp
qed

text \<open>
  C7, as the code has it. An address-shaped token is the prefix followed by letters and
  digits, standing between word boundaries. Each occurrence is returned once, in place
  between the addresses of the text before and of the text behind, unless the token
  contains the placeholder literal as a substring; so equal tokens are returned as often
  as they occur. No returned address contains the placeholder, and the placeholder itself
  is never returned.
\<close>

theorem extract_addresses_occurrences:
  "((\<forall>x\<in>set body. is_alnum x) \<and> body \<noteq> [] \<and> (pre = [] \<or> \<not> is_word (last pre))
      \<and> (post = [] \<or> \<not> is_word (hd post)) \<longrightarrow>
      extract_addresses (pre @ (sc_prefix @ body) @ post)
        = extract_addresses pre
          @ (if sublist placeholder (sc_prefix @ body) then [] else [sc_prefix @ body])
          @ extract_addresses post)
   \<and> (\<forall>a\<in>set (extract_addresses s). \<not> sublist placeholder a)
   \<and> placeholder \<notin> set (extract_addresses s)"
proof (intro conjI impI)
  assume h: "(\<forall>x\<in>set body. is_alnum x) \<and> body \<noteq> [] \<and> (pre = [] \<or> \<not> is_word (last pre))
      \<and> (post = [] \<or> \<not> is_word (hd post))"
  then have "\<not> end_flag False pre" by (auto simp: end_flag_def)
  then have "findall_sc False (pre @ (sc_prefix @ body) @ post)
      = findall_sc False pre @ findall_sc False ((sc_prefix @ body) @ post)"
    by (rule findall_sc_append)
  also have "findall_sc False ((sc_prefix @ body) @ post) = (sc_prefix @ body) # findall_sc True post"
  proof -
    have m: "match_sc (sc_prefix @ body @ post) = Some (sc_prefix @ body, post)"
      using h by (intro match_sc_token) auto
    obtain c cs where cc: "sc_prefix @ body @ post = c # cs" by (cases "sc_prefix @ body @ post") (auto simp: sc_prefix_def)
    have "findall_sc False (c # cs) = (sc_prefix @ body) # findall_sc True post"
      using m cc by simp
    then show ?thesis using cc by simp
  qed
  also have "findall_sc True post = findall_sc False post"
    using h by (intro findall_sc_nonword_start) auto
  finally show "extract_addresses (pre @ (sc_prefix @ body) @ post)
        = extract_addresses pre
          @ (if sublist placeholder (sc_prefix @ body) then [] else [sc_prefix @ body])
          @ extract_addresses post"
    by (simp add: extract_addresses_def)
next
  show "\<forall>a\<in>set (extract_addresses s). \<not> sublist placeholder a"
    by (simp add: extract_addresses_def)
  then show "placeholder \<notin> set (extract_addresses s)" by auto
qed

theorem extract_addresses_occurrences_witness:
  "extract_addresses (''a,'' @ (sc_prefix @ ''abc'') @ '';'') = [sc_prefix @ ''abc'']
   \<and> placeholder \<notin> set (extract_addresses placeholder)"
proof -
  have h: "(\<forall>x\<in>set ''abc''. is_alnum x) \<and> ''abc'' \<noteq> [] \<and> (''a,'' = [] \<or> \<not> is_word (last ''a,''))
      \<and> ('';'' = [] \<or> \<not> is_word (hd '';''))"
    by (simp add: is_word_def latin1_word_def Let_def is_alnum_def is_alpha_def is_digit_def)
  have e: "extract_addresses ''a,'' = []" "extract_addresses '';'' = []"
    "\<not> sublist placeholder (sc_prefix @ ''abc'')"
    by code_simp+
  from extract_addresses_occurrences [of "''abc''" "''a,''" "'';''" placeholder] h e
  show ?thesis by simp
qed

text \<open>
  C7 as stated fails: a token that is longer than the placeholder literal and starts
  with it is matched by the pattern, is not equal to the placeholder, and is left out.
\<close>

theorem extract_addresses_equal_counterexample:
  "findall_sc False (placeholder @ ''zllls8a5w6u'') = [placeholder @ ''zllls8a5w6u'']
   \<and> placeholder @ ''zllls8a5w6u'' \<noteq> placeholder
   \<and> extract_addresses (placeholder @ ''zllls8a5w6u'') = []"
  by (intro conjI; code_simp)


section \<open>Properties of the primary repair on JSON text\<close>

lemma sub_keys_no_key: "\<not> has_bare_key prev s \<Longrightarrow> sub_keys prev s = s"
  by (induction s arbitrary: prev) auto

lemma str_replace_char_absent: "c \<notin> set s \<Longrightarrow> str_replace [c] new s = s"
  by (induction s) auto

lemma str_replace_absent: "old \<noteq> [] \<Longrightarrow> \<not> sublist old s \<Longrightarrow> str_replace old new s = s"
proof (induction s)
  case Nil
  then show ?case by simp
next
  case (Cons c cs)
  then have "\<not> prefix old (c # cs)" "\<not> sublist old cs"
    by (auto simp: sublist_Cons_right)
  with Cons show ?case by simp
qed

text \<open>
  C5, as the code has it. A text that parses as JSON and has no apostrophe, no
  backslash, no \<open>!0\<close> or \<open>!1\<close> and no identifier followed by a colon (after optional
  white space) anywhere, string values included, is returned unchanged by the primary
  repair, so it parses to the same value.
\<close>

theorem repair_json_identity:
  "json_loads s = Inr v \<and> \<not> has_bare_key False s \<and> CHR 0x27 \<notin> set s \<and> CHR 0x5C \<notin> set s
     \<and> \<not> sublist ''!0'' s \<and> \<not> sublist ''!1'' s
   \<longrightarrow> repair_json s = s \<and> json_loads (repair_json s) = Inr v"
  by (simp add: repair_json_def Let_def sub_keys_no_key str_replace_char_absent str_replace_absent)

theorem repair_json_identity_witness:
  \<open>repair_json ''{"name": "x", "ok": [true, 1]}'' = ''{"name": "x", "ok": [true, 1]}''
   \<and> json_loads (repair_json ''{"name": "x", "ok": [true, 1]}'')
       = Inr (JObject [(''name'', JString ''x''), (''ok'', JArray [JBool True, JNumber ''1''])])\<close>
proof -
  have h: \<open>json_loads ''{"name": "x", "ok": [true, 1]}''
             = Inr (JObject [(''name'', JString ''x''), (''ok'', JArray [JBool True, JNumber ''1''])])\<close>
    \<open>\<not> has_bare_key False ''{"name": "x", "ok": [true, 1]}''\<close>
    \<open>CHR 0x27 \<notin> set ''{"name": "x", "ok": [true, 1]}''\<close>
    \<open>CHR 0x5C \<notin> set ''{"name": "x", "ok": [true, 1]}''\<close>
    \<open>\<not> sublist ''!0'' ''{"name": "x", "ok": [true, 1]}''\<close>
    \<open>\<not> sublist ''!1'' ''{"name": "x", "ok": [true, 1]}''\<close>
    by code_simp+
  from repair_json_identity [of \<open>''{"name": "x", "ok": [true, 1]}''\<close>
      "JObject [(''name'', JString ''x''), (''ok'', JArray [JBool True, JNumber ''1''])]"] h
  show ?thesis by blast
qed

text \<open>
  C5 as stated fails: the text \<open>{"a":"b:c"}\<close> is strict JSON with double-quoted key and
  string, no \<open>!0\<close> or \<open>!1\<close> and no backslash. The key pattern matches \<open>b\<close> inside
  the string value, and the repaired text does not parse.
\<close>

theorem repair_json_valid_counterexample:
  \<open>json_loads ''{"a":"b:c"}'' = Inr (JObject [(''a'', JString ''b:c'')])
   \<and> CHR 0x27 \<notin> set ''{"a":"b:c"}'' \<and> CHR 0x5C \<notin> set ''{"a":"b:c"}''
   \<and> \<not> sublist ''!0'' ''{"a":"b:c"}'' \<and> \<not> sublist ''!1'' ''{"a":"b:c"}''
   \<and> repair_json ''{"a":"b:c"}'' = ''{"a":""b":c"}''
   \<and> json_loads (repair_json ''{"a":"b:c"}'') = Inl Malformed\<close>
  by (intro conjI; code_simp)

text \<open>An apostrophe inside a string value is turned into a double quote, with the same effect.\<close>

lemma repair_json_apostrophe:
  \<open>json_loads ''{"a":"it's"}'' = Inr (JObject [(''a'', JString ''it's'')])
   \<and> \<not> has_bare_key False ''{"a":"it's"}''
   \<and> json_loads (repair_json ''{"a":"it's"}'') = Inl Malformed\<close>
  by (intro conjI; code_simp)



section \<open>Properties of the matching engine\<close>

lemma probe_frame:
  "probe env a f r = (out, r') \<Longrightarrow>
     relationship_dict r' = relationship_dict r \<and> trace r' = trace r @ [Query a f out]"
  by (auto simp: probe_def Let_def split: prod.splits)


lemma count_matches_frame:
  "count_matches env a rfs n r = (res, r') \<Longrightarrow>
     relationship_dict r' = relationship_dict r \<and>
     (\<exists>qs. trace r' = trace r @ qs
        \<and> map queried qs = map (\<lambda>f. Some (a, f)) (take (length qs) rfs)
        \<and> length qs \<le> length rfs
        \<and> (case res of
              Inr m \<Rightarrow> length qs = length rfs \<and> m = n + length (filter confirmed qs)
            | Inl e \<Rightarrow> qs \<noteq> [] \<and> \<not> answered (last qs)))"
proof (induction rfs arbitrary: n r)
  case Nil
  then show ?case by auto
next
  case (Cons f rfs)
  obtain out r1 where p: "probe env a f r = (out, r1)" by (cases "probe env a f r")
  note pf = probe_frame [OF p]
  show ?case
  proof (cases out)
    case (Inl e)
    with p Cons.prems have "res = Inl e" "r' = r1" by auto
    with pf Inl show ?thesis
      by (auto simp: queried_def answered_def intro!: exI [of _ "[Query a f (Inl e)]"])
  next
    case (Inr rc)
    let ?n = "if \<not> is_rejection rc then n + 1 else n"
    from p Inr Cons.prems have "count_matches env a rfs ?n r1 = (res, r')" by auto
    from Cons.IH [OF this] obtain qs where
      d: "relationship_dict r' = relationship_dict r1" and t: "trace r' = trace r1 @ qs"
      and q: "map queried qs = map (\<lambda>f. Some (a, f)) (take (length qs) rfs)"
      and l: "length qs \<le> length rfs"
      and c: "(case res of
              Inr m \<Rightarrow> length qs = length rfs \<and> m = ?n + length (filter confirmed qs)
            | Inl e \<Rightarrow> qs \<noteq> [] \<and> \<not> answered (last qs))"
      by blast
    have "trace r' = trace r @ (Query a f (Inr rc) # qs)" using t pf Inr by simp
    moreover have "map queried (Query a f (Inr rc) # qs)
        = map (\<lambda>f. Some (a, f)) (take (length (Query a f (Inr rc) # qs)) (f # rfs))"
      using q by (simp add: queried_def)
    moreover have "length (Query a f (Inr rc) # qs) \<le> length (f # rfs)" using l by simp
    moreover have "(case res of
              Inr m \<Rightarrow> length (Query a f (Inr rc) # qs) = length (f # rfs)
                        \<and> m = n + length (filter confirmed (Query a f (Inr rc) # qs))
            | Inl e \<Rightarrow> Query a f (Inr rc) # qs \<noteq> [] \<and> \<not> answered (last (Query a f (Inr rc) # qs)))"
      using c by (cases res) (auto simp: confirmed_def answered_def)
    ultimately have "\<exists>qs'. trace r' = trace r @ qs'
        \<and> map queried qs' = map (\<lambda>f. Some (a, f)) (take (length qs') (f # rfs))
        \<and> length qs' \<le> length (f # rfs)
        \<and> (case res of
              Inr m \<Rightarrow> length qs' = length (f # rfs) \<and> m = n + length (filter confirmed qs')
            | Inl e \<Rightarrow> qs' \<noteq> [] \<and> \<not> answered (last qs'))"
      by (intro exI [of _ "Query a f (Inr rc) # qs"] conjI)
    moreover have "relationship_dict r' = relationship_dict r" using d pf by simp
    ultimately show ?thesis by simp
  qed
qed




lemma replay_append: "replay (xs @ ys) d = replay ys (replay xs d)"
  by (induction xs arbitrary: d) auto

lemma queried_queries:
  "map queried qs = map (\<lambda>f. Some (a, f)) xs \<Longrightarrow> \<forall>q\<in>set qs. \<exists>f out. q = Query a f out"
proof (induction qs arbitrary: xs)
  case Nil
  then show ?case by simp
next
  case (Cons q qs)
  then obtain y ys where xs: "xs = y # ys" by (cases xs) auto
  with Cons.prems have hd: "queried q = Some (a, y)" and tl: "map queried qs = map (\<lambda>f. Some (a, f)) ys"
    by auto
  from Cons.IH [OF tl] have "\<forall>q\<in>set qs. \<exists>f out. q = Query a f out" .
  moreover have "\<exists>f out. q = Query a f out" using hd by (cases q) (auto simp: queried_def)
  ultimately show ?case by simp
qed

lemma replay_queries: "\<forall>q\<in>set qs. \<exists>f out. q = Query a f out \<Longrightarrow> replay qs d = d \<and> quiet qs"
  by (induction qs arbitrary: d) (auto simp: quiet_def is_serialization_def)

lemma count_matches_replay:
  assumes "count_matches env a rfs n r = (res, r')"
  shows "\<exists>new. trace r' = trace r @ new \<and> relationship_dict r' = replay new (relationship_dict r) \<and> quiet new"
proof -
  from count_matches_frame [OF assms] obtain qs where
    d: "relationship_dict r' = relationship_dict r" and t: "trace r' = trace r @ qs"
    and q: "map queried qs = map (\<lambda>f. Some (a, f)) (take (length qs) rfs)"
    by blast
  from replay_queries [OF queried_queries [OF q]] d t show ?thesis by metis
qed

lemma match_address_frame:
  assumes "match_address env dir abi fns f0 a r = (x, r')"
  shows "\<exists>new. trace r' = trace r @ new \<and> relationship_dict r' = replay new (relationship_dict r) \<and> quiet new"
proof -
  obtain out r1 where p: "probe env a f0 r = (out, r1)" by (cases "probe env a f0 r")
  note pf = probe_frame [OF p]
  have q1: "quiet [Query a f0 out]" "replay [Query a f0 out] (relationship_dict r) = relationship_dict r"
    by (simp_all add: quiet_def is_serialization_def)
  show ?thesis
  proof (cases out)
    case (Inl e)
    with p assms have "r' = r1" by (simp add: match_address_def)
    with pf q1 show ?thesis by metis
  next
    case (Inr rc)
    show ?thesis
    proof (cases "is_rejection rc")
      case True
      with Inr p assms have "r' = r1" by (simp add: match_address_def)
      with pf q1 show ?thesis by metis
    next
      case False
      obtain sres w2 where s: "random_functions_of env fns (world r1) = (sres, w2)"
        by (cases "random_functions_of env fns (world r1)")
      show ?thesis
      proof (cases sres)
        case (Inl e)
        with Inr False p s assms have "r' = r1\<lparr>world := w2\<rparr>" by (simp add: match_address_def)
        with pf q1 show ?thesis by (intro exI [of _ "[Query a f0 out]"]) simp
      next
        case rfs: (Inr rfs)
        obtain res r3 where c: "count_matches env a rfs 0 (r1\<lparr>world := w2\<rparr>) = (res, r3)"
          by (cases "count_matches env a rfs 0 (r1\<lparr>world := w2\<rparr>)")
        from count_matches_replay [OF c] obtain new where
          n: "trace r3 = trace r1 @ new" "relationship_dict r3 = replay new (relationship_dict r1)" "quiet new"
          by auto
        have base: "trace r3 = trace r @ (Query a f0 out # new)"
          "relationship_dict r3 = replay (Query a f0 out # new) (relationship_dict r)"
          "quiet (Query a f0 out # new)"
          using n pf by (simp_all add: quiet_def is_serialization_def)
        from Inr False p s rfs c assms
        consider (same) "trace r' = trace r3" "relationship_dict r' = relationship_dict r3"
          | (rec) path where "trace r' = trace r3 @ [WriteAbi path abi, PrintMatch a path]"
              "relationship_dict r' = AList.update a path (relationship_dict r3)"
          by (auto simp: match_address_def split: sum.splits if_splits prod.splits)
        then show ?thesis
        proof cases
          case same
          with base show ?thesis by metis
        next
          case rec
          have "trace r' = trace r @ ((Query a f0 out # new) @ [WriteAbi path abi, PrintMatch a path])"
            using rec base by simp
          moreover have "relationship_dict r'
              = replay ((Query a f0 out # new) @ [WriteAbi path abi, PrintMatch a path]) (relationship_dict r)"
            using rec(2) base(2) by (simp only: replay_append) simp
          moreover have "quiet ((Query a f0 out # new) @ [WriteAbi path abi, PrintMatch a path])"
            using base(3) by (simp add: quiet_def is_serialization_def)
          ultimately show ?thesis by blast
        qed
      qed
    qed
  qed
qed

lemma frame_trans:
  assumes "\<exists>new. trace r1 = trace r @ new \<and> relationship_dict r1 = replay new (relationship_dict r) \<and> quiet new"
    and "\<exists>new. trace r2 = trace r1 @ new \<and> relationship_dict r2 = replay new (relationship_dict r1) \<and> quiet new"
  shows "\<exists>new. trace r2 = trace r @ new \<and> relationship_dict r2 = replay new (relationship_dict r) \<and> quiet new"
proof -
  from assms obtain n1 n2 where
    a: "trace r1 = trace r @ n1" "relationship_dict r1 = replay n1 (relationship_dict r)" "quiet n1"
    and b: "trace r2 = trace r1 @ n2" "relationship_dict r2 = replay n2 (relationship_dict r1)" "quiet n2"
    by blast
  have "trace r2 = trace r @ (n1 @ n2)" using a b by simp
  moreover have "relationship_dict r2 = replay (n1 @ n2) (relationship_dict r)"
    using a b by (simp add: replay_append)
  moreover have "quiet (n1 @ n2)" using a b by (auto simp: quiet_def)
  ultimately show ?thesis by blast
qed

lemma frame_refl:
  "\<exists>new. trace r = trace r @ new \<and> relationship_dict r = replay new (relationship_dict r) \<and> quiet new"
  by (intro exI [of _ "[]"]) (simp add: quiet_def)

lemma match_addresses_frame:
  "match_addresses env dir abi fns f0 as r = (x, r') \<Longrightarrow>
   \<exists>new. trace r' = trace r @ new \<and> relationship_dict r' = replay new (relationship_dict r) \<and> quiet new"
proof (induction as arbitrary: r)
  case Nil
  then show ?case using frame_refl by simp
next
  case (Cons a as)
  obtain y r1 where m: "match_address env dir abi fns f0 a r = (y, r1)"
    by (cases "match_address env dir abi fns f0 a r")
  show ?case
  proof (cases y)
    case None
    with m Cons.prems have "match_addresses env dir abi fns f0 as r1 = (x, r')" by simp
    from frame_trans [OF match_address_frame [OF m] Cons.IH [OF this]] show ?thesis .
  next
    case (Some e)
    with m Cons.prems have "r' = r1" by simp
    with match_address_frame [OF m] show ?thesis by simp
  qed
qed

lemma match_descriptor_frame:
  "\<exists>new. trace (snd (match_descriptor env dir as d r)) = trace r @ new
     \<and> relationship_dict (snd (match_descriptor env dir as d r)) = replay new (relationship_dict r) \<and> quiet new"
proof (cases "load_abi d")
  case (Inl e)
  then show ?thesis using frame_refl by (simp add: match_descriptor_def)
next
  case abi: (Inr abi)
  show ?thesis
  proof (cases "function_names_of abi")
    case (Inl e)
    with abi show ?thesis using frame_refl by (simp add: match_descriptor_def)
  next
    case (Inr fns)
    show ?thesis
    proof (cases fns)
      case Nil
      with abi Inr show ?thesis using frame_refl by (simp add: match_descriptor_def)
    next
      case (Cons f0 rest)
      with abi Inr have "match_descriptor env dir as d r = match_addresses env dir abi fns f0 as r"
        by (simp add: match_descriptor_def)
      moreover obtain x r' where m: "match_addresses env dir abi fns f0 as r = (x, r')"
        by (cases "match_addresses env dir abi fns f0 as r")
      ultimately show ?thesis using match_addresses_frame [OF m] by simp
    qed
  qed
qed

lemma match_all_frame:
  "\<exists>new. trace (match_all env dir as ds r) = trace r @ new
     \<and> relationship_dict (match_all env dir as ds r) = replay new (relationship_dict r) \<and> quiet new"
proof (induction ds arbitrary: r)
  case Nil
  then show ?case using frame_refl by simp
next
  case (Cons d ds)
  from frame_trans [OF match_descriptor_frame Cons.IH] show ?case by simp
qed

lemma match_all_append:
  "match_all env dir as (ds1 @ ds2) r = match_all env dir as ds2 (match_all env dir as ds1 r)"
  by (induction ds1 arbitrary: r) auto

lemma replay_distinct: "distinct (map fst d) \<Longrightarrow> distinct (map fst (replay es d))"
  by (induction es arbitrary: d) (auto simp: distinct_update split: effect.splits)

lemma replay_keys: "fst ` set d \<subseteq> fst ` set (replay es d)"
proof (induction es arbitrary: d)
  case Nil
  then show ?case by simp
next
  case (Cons e es)
  let ?d = "case e of PrintMatch a p \<Rightarrow> AList.update a p d | _ \<Rightarrow> d"
  have "set (map fst d) \<subseteq> set (map fst ?d)"
    by (cases e) (auto simp: update_keys)
  then have "fst ` set d \<subseteq> fst ` set ?d" by (simp only: set_map)
  also have "fst ` set ?d \<subseteq> fst ` set (replay es ?d)" by (rule Cons.IH)
  finally show ?case by (simp only: replay.simps)
qed

lemma replay_last_recorded:
  "map_of (replay es d) a = (case last_recorded a es of Some p \<Rightarrow> Some p | None \<Rightarrow> map_of d a)"
proof (induction es arbitrary: d)
  case Nil
  then show ?case by simp
next
  case (Cons e es)
  show ?case
  proof (cases "last_recorded a es")
    case None
    then show ?thesis using Cons [of "case e of PrintMatch a p \<Rightarrow> AList.update a p d | _ \<Rightarrow> d"]
      by (cases e) (auto simp: update_conv')
  next
    case (Some p)
    then show ?thesis using Cons by simp
  qed
qed

text \<open>
  The confirmation round by the number of endpoints: up to four, all endpoints but the
  first; six or more, five drawn from the others; exactly five, \<open>random.sample\<close> is
  asked for five out of four and raises.
\<close>

lemma random_functions_of_cases:
  "(length fns \<le> 4 \<longrightarrow> random_functions_of env fns w = (Inr (tl fns), w))
   \<and> (length fns = 5 \<longrightarrow> random_functions_of env fns w = (Inl ValueError, w))
   \<and> (6 \<le> length fns \<longrightarrow>
        random_functions_of env fns w = (Inr (fst (sample env w (tl fns) 5)), snd (sample env w (tl fns) 5)))"
  by (auto simp: random_functions_of_def random_sample_def NUMBER_OF_MATCHES_def split: prod.splits)




text \<open>
  C10, as the code has it. For a descriptor with one endpoint, after a first probe with
  a code outside the two rejection codes the confirmation round is empty and counts
  0 of 0. Then the name of the descriptor is read and its file is written: if both
  succeed the match is recorded, and the probe, the export and the message are all the
  pair does; an exception from either ends the pair unrecorded.
\<close>

theorem single_endpoint_accepted:
  "probe env a f r = (Inr rc, r1) \<and> \<not> is_rejection rc
   \<longrightarrow> random_functions_of env [f] (world r1) = (Inr [], world r1)
     \<and> count_matches env a [] 0 r1 = (Inr (length ([] :: json list)), r1)
     \<and> (py_getitem abi ''name'' = Inr name_field
          \<and> export_abi_json env abi name_field dir (world r1) = (Inr path, w4) \<longrightarrow>
          match_address env dir abi [f] f a r
            = (None, r1\<lparr>world := w4,
                       relationship_dict := AList.update a path (relationship_dict r1),
                       trace := trace r1 @ [WriteAbi path abi, PrintMatch a path]\<rparr>)
          \<and> new_effects r (snd (match_address env dir abi [f] f a r))
              = [Query a f (Inr rc), WriteAbi path abi, PrintMatch a path])
     \<and> (py_getitem abi ''name'' = Inl e \<longrightarrow> match_address env dir abi [f] f a r = (Some e, r1))
     \<and> (py_getitem abi ''name'' = Inr name_field
          \<and> export_abi_json env abi name_field dir (world r1) = (Inl e, w4) \<longrightarrow>
          match_address env dir abi [f] f a r = (Some e, r1\<lparr>world := w4\<rparr>))"
proof (intro impI)
  assume h: "probe env a f r = (Inr rc, r1) \<and> \<not> is_rejection rc"
  then have p: "probe env a f r = (Inr rc, r1)" by simp
  note pf = probe_frame [OF p]
  have rf: "random_functions_of env [f] (world r1) = (Inr [], world r1)"
    by (simp add: random_functions_of_def NUMBER_OF_MATCHES_def)
  have cm: "count_matches env a [] 0 r1 = (Inr (length ([] :: json list)), r1)" by simp
  have m: "match_address env dir abi [f] f a r =
      (case py_getitem abi ''name'' of
         Inl e' \<Rightarrow> (Some e', r1)
       | Inr nf \<Rightarrow>
           (case export_abi_json env abi nf dir (world r1) of
              (Inl e', w') \<Rightarrow> (Some e', r1\<lparr>world := w'\<rparr>)
            | (Inr p, w') \<Rightarrow>
                (None, r1\<lparr>world := w',
                          relationship_dict := AList.update a p (relationship_dict r1),
                          trace := trace r1 @ [WriteAbi p abi, PrintMatch a p]\<rparr>)))"
    using h rf by (auto simp: match_address_def split: sum.splits prod.splits)
  have ok: "py_getitem abi ''name'' = Inr name_field
          \<and> export_abi_json env abi name_field dir (world r1) = (Inr path, w4) \<longrightarrow>
          match_address env dir abi [f] f a r
            = (None, r1\<lparr>world := w4,
                       relationship_dict := AList.update a path (relationship_dict r1),
                       trace := trace r1 @ [WriteAbi path abi, PrintMatch a path]\<rparr>)
          \<and> new_effects r (snd (match_address env dir abi [f] f a r))
              = [Query a f (Inr rc), WriteAbi path abi, PrintMatch a path]"
    unfolding m using pf by (simp add: new_effects_def)
  have noname: "py_getitem abi ''name'' = Inl e \<longrightarrow> match_address env dir abi [f] f a r = (Some e, r1)"
    unfolding m by simp
  have nofile: "py_getitem abi ''name'' = Inr name_field
          \<and> export_abi_json env abi name_field dir (world r1) = (Inl e, w4) \<longrightarrow>
          match_address env dir abi [f] f a r = (Some e, r1\<lparr>world := w4\<rparr>)"
    unfolding m by simp
  show "random_functions_of env [f] (world r1) = (Inr [], world r1)
     \<and> count_matches env a [] 0 r1 = (Inr (length ([] :: json list)), r1)
     \<and> (py_getitem abi ''name'' = Inr name_field
          \<and> export_abi_json env abi name_field dir (world r1) = (Inr path, w4) \<longrightarrow>
          match_address env dir abi [f] f a r
            = (None, r1\<lparr>world := w4,
                       relationship_dict := AList.update a path (relationship_dict r1),
                       trace := trace r1 @ [WriteAbi path abi, PrintMatch a path]\<rparr>)
          \<and> new_effects r (snd (match_address env dir abi [f] f a r))
              = [Query a f (Inr rc), WriteAbi path abi, PrintMatch a path])
     \<and> (py_getitem abi ''name'' = Inl e \<longrightarrow> match_address env dir abi [f] f a r = (Some e, r1))
     \<and> (py_getitem abi ''name'' = Inr name_field
          \<and> export_abi_json env abi name_field dir (world r1) = (Inl e, w4) \<longrightarrow>
          match_address env dir abi [f] f a r = (Some e, r1\<lparr>world := w4\<rparr>))"
    by (intro conjI rf cm ok noname nofile)
qed

theorem single_endpoint_accepted_witness:
  "match_address (example_env ''A'') ''d'' (JObject [(''name'', JString ''One'')])
       [JString ''f''] (JString ''f'') ''A'' \<lparr>world = 0, relationship_dict = [], trace = []\<rparr>
   = (None, \<lparr>world = 1, relationship_dict = [(''A'', ''d/One.json'')],
             trace = [Query ''A'' (JString ''f'') (Inr (JString ''ok'')),
                      WriteAbi ''d/One.json'' (JObject [(''name'', JString ''One'')]),
                      PrintMatch ''A'' ''d/One.json'']\<rparr>)"
proof -
  have h: "probe (example_env ''A'') ''A'' (JString ''f'') \<lparr>world = 0, relationship_dict = [], trace = []\<rparr>
            = (Inr (JString ''ok''),
               \<lparr>world = 1, relationship_dict = [], trace = [Query ''A'' (JString ''f'') (Inr (JString ''ok''))]\<rparr>)"
    "\<not> is_rejection (JString ''ok'')"
    "py_getitem (JObject [(''name'', JString ''One'')]) ''name'' = Inr (JString ''One'')"
    "export_abi_json (example_env ''A'') (JObject [(''name'', JString ''One'')]) (JString ''One'') ''d''
        (world \<lparr>world = 1 :: nat, relationship_dict = [],
                 trace = [Query ''A'' (JString ''f'') (Inr (JString ''ok''))]\<rparr>)
       = (Inr ''d/One.json'', 1)"
    by code_simp+
  from single_endpoint_accepted [where env = "example_env ''A''" and a = "''A''" and f = "JString ''f''"
      and r = "\<lparr>world = 0, relationship_dict = [], trace = []\<rparr>" and rc = "JString ''ok''"
      and ?r1.0 = "\<lparr>world = 1, relationship_dict = [], trace = [Query ''A'' (JString ''f'') (Inr (JString ''ok''))]\<rparr>"
      and abi = "JObject [(''name'', JString ''One'')]" and name_field = "JString ''One''"
      and dir = "''d''" and path = "''d/One.json''" and ?w4.0 = 1] h
  have "match_address (example_env ''A'') ''d'' (JObject [(''name'', JString ''One'')])
       [JString ''f''] (JString ''f'') ''A'' \<lparr>world = 0, relationship_dict = [], trace = []\<rparr>
     = (None, \<lparr>world = 1 :: nat, relationship_dict = [],
                trace = [Query ''A'' (JString ''f'') (Inr (JString ''ok''))]\<rparr>
              \<lparr>world := 1,
                relationship_dict := AList.update ''A'' ''d/One.json''
                  (relationship_dict \<lparr>world = 1 :: nat, relationship_dict = [],
                     trace = [Query ''A'' (JString ''f'') (Inr (JString ''ok''))]\<rparr>),
                trace := trace \<lparr>world = 1 :: nat, relationship_dict = [],
                     trace = [Query ''A'' (JString ''f'') (Inr (JString ''ok''))]\<rparr>
                  @ [WriteAbi ''d/One.json'' (JObject [(''name'', JString ''One'')]),
                     PrintMatch ''A'' ''d/One.json'']\<rparr>)"
    by blast
  then show ?thesis by simp
qed

text \<open>
  C10 as stated fails: a descriptor with one endpoint and no name, on a gateway where the
  address answers \<open>ok\<close>. The probe returns a code outside the two rejection codes and
  the pair is not recorded: reading the name raises \<open>KeyError\<close>.
\<close>

theorem nameless_single_endpoint_counterexample:
  \<open>function_names_of (JObject [(''endpoints'', JArray [JObject [(''name'', JString ''f'')]])])
     = Inr [JString ''f'']
   \<and> match_descriptor (example_env ''A'') ''d'' [''A'']
       ''{"endpoints":[{"name":"f"}]}'' (initial_run 0)
     = (Some KeyError,
        \<lparr>world = 1, relationship_dict = [],
          trace = [Query ''A'' (JString ''f'') (Inr (JString ''ok''))]\<rparr>)\<close>
  by (intro conjI; code_simp)

text \<open>
  C2. A descriptor with exactly five endpoints, on a gateway that answers \<open>ok\<close> for every
  function of the address: after the first probe \<open>random.sample\<close> is asked for five of
  the four other endpoints and raises \<open>ValueError\<close>; none of the four is probed, the
  descriptor is given up and nothing is recorded, where the claim has the four probed.
\<close>

theorem five_endpoints_sampling_raises:
  \<open>function_names_of (JObject [(''name'', JString ''Five''), (''endpoints'',
        JArray [JObject [(''name'', JString ''a'')], JObject [(''name'', JString ''b'')],
                JObject [(''name'', JString ''c'')], JObject [(''name'', JString ''d'')],
                JObject [(''name'', JString ''e'')]])])
     = Inr [JString ''a'', JString ''b'', JString ''c'', JString ''d'', JString ''e'']
   \<and> match_descriptor (example_env ''A'') ''exports/x'' [''A'']
       ''{"name":"Five","endpoints":[{"name":"a"},{"name":"b"},{"name":"c"},{"name":"d"},{"name":"e"}]}''
       \<lparr>world = 0, relationship_dict = [], trace = []\<rparr>
     = (Some ValueError,
        \<lparr>world = 1, relationship_dict = [],
          trace = [Query ''A'' (JString ''a'') (Inr (JString ''ok''))]\<rparr>)
   \<and> relationship_dict (find_matching_contracts (example_env ''A'')
       [''{"name":"Five","endpoints":[{"name":"a"},{"name":"b"},{"name":"c"},{"name":"d"},{"name":"e"}]}'']
       [''A''] ''exports/x'' 0) = []\<close>
  by (intro conjI; code_simp)


lemma match_addresses_abort:
  "match_addresses env dir abi fns f0 probed r = (None, ra) \<Longrightarrow>
   match_address env dir abi fns f0 a ra = (Some e, r2) \<Longrightarrow>
   match_addresses env dir abi fns f0 (probed @ a # rest) r = (Some e, r2)"
proof (induction probed arbitrary: r)
  case Nil
  then show ?case by simp
next
  case (Cons b probed)
  obtain y rb where m: "match_address env dir abi fns f0 b r = (y, rb)"
    by (cases "match_address env dir abi fns f0 b r")
  show ?case
  proof (cases y)
    case None
    with m Cons.prems(1) have "match_addresses env dir abi fns f0 probed rb = (None, ra)" by simp
    from Cons.IH [OF this Cons.prems(2)] m None show ?thesis by simp
  next
    case (Some e')
    with m Cons.prems(1) show ?thesis by simp
  qed
qed

lemma count_matches_raise:
  "count_matches env a asked n r = (Inr m, rq) \<Longrightarrow>
   probe env a f rq = (Inl e, r2) \<Longrightarrow>
   count_matches env a (asked @ f # unasked) n r = (Inl e, r2)"
proof (induction asked arbitrary: n r)
  case Nil
  then show ?case by simp
next
  case (Cons g asked)
  obtain out rg where p: "probe env a g r = (out, rg)" by (cases "probe env a g r")
  show ?case
  proof (cases out)
    case (Inl e')
    with p Cons.prems(1) show ?thesis by simp
  next
    case (Inr rc)
    with p Cons.prems(1)
    have "count_matches env a asked (if \<not> is_rejection rc then n + 1 else n) rg = (Inr m, rq)" by simp
    from Cons.IH [OF this Cons.prems(2)] p Inr show ?thesis by simp
  qed
qed

text \<open>
  C8. Take a batch \<open>earlier @ d # later\<close> and the state \<open>r1\<close> in which the run reaches the
  descriptor \<open>d\<close>, and let an exception \<open>e\<close> be raised while \<open>d\<close> is worked on, leaving
  the state \<open>r2\<close>: in parsing it (a text that the model of \<open>json.loads\<close> cannot follow
  is set aside) or in reading its endpoint list, where nothing has been done yet, or, with the addresses \<open>probed\<close> done without an exception, at the address
  \<open>a\<close>: in its first probe, in a probe of its confirmation round after the functions
  \<open>asked\<close>, or anywhere else in the body of the loop for \<open>a\<close>. Then the work on \<open>d\<close> ends
  there with that exception: its state is \<open>r2\<close>, whatever functions \<open>unasked\<close> and
  addresses \<open>rest\<close> were still to come. The run goes on with the descriptors \<open>later\<close>
  from \<open>r2\<close>, and its trace ends with the relationship file, written with the
  dictionary as it stands then, in which every address recorded up to \<open>r2\<close> still has
  an entry.
\<close>

theorem exception_skips_one_descriptor:
  assumes "r1 = match_all env dir addrs earlier (initial_run w)"
    and "(load_abi d = Inl e \<and> e \<noteq> Unmodelled_text \<and> r2 = r1)
       \<or> (load_abi d = Inr abi \<and> function_names_of abi = Inl e \<and> r2 = r1)
       \<or> (load_abi d = Inr abi \<and> function_names_of abi = Inr [] \<and> e = IndexError \<and> r2 = r1)
       \<or> (load_abi d = Inr abi \<and> function_names_of abi = Inr (f0 # fs)
            \<and> addrs = probed @ a # rest
            \<and> match_addresses env dir abi (f0 # fs) f0 probed r1 = (None, ra)
            \<and> (probe env a f0 ra = (Inl e, r2)
               \<or> (probe env a f0 ra = (Inr rc, rp) \<and> \<not> is_rejection rc
                    \<and> random_functions_of env (f0 # fs) (world rp) = (Inr (asked @ f # unasked), w2)
                    \<and> count_matches env a asked 0 (rp\<lparr>world := w2\<rparr>) = (Inr m, rq)
                    \<and> probe env a f rq = (Inl e, r2))
               \<or> match_address env dir abi (f0 # fs) f0 a ra = (Some e, r2)))"
  shows "match_descriptor env dir addrs d r1 = (Some e, r2)
     \<and> match_all env dir addrs (earlier @ d # later) (initial_run w) = match_all env dir addrs later r2
     \<and> (let final = find_matching_contracts env (earlier @ d # later) addrs dir w;
            relationship_file_path = path_join dir ''relationship.json''
        in (\<exists>more. trace final
               = trace r2 @ more @ [WriteRelationship relationship_file_path (relationship_dict final),
                                    PrintRelationship relationship_file_path]
               \<and> relationship_dict final = replay more (relationship_dict r2))
         \<and> fst ` set (relationship_dict r2) \<subseteq> fst ` set (relationship_dict final))"
proof -
  have md: "match_descriptor env dir addrs d r1 = (Some e, r2)"
  proof -
    {
      assume h: "load_abi d = Inr abi" "function_names_of abi = Inr (f0 # fs)"
        "addrs = probed @ a # rest"
        "match_addresses env dir abi (f0 # fs) f0 probed r1 = (None, ra)"
        and raised: "probe env a f0 ra = (Inl e, r2)
               \<or> (probe env a f0 ra = (Inr rc, rp) \<and> \<not> is_rejection rc
                    \<and> random_functions_of env (f0 # fs) (world rp) = (Inr (asked @ f # unasked), w2)
                    \<and> count_matches env a asked 0 (rp\<lparr>world := w2\<rparr>) = (Inr m, rq)
                    \<and> probe env a f rq = (Inl e, r2))
               \<or> match_address env dir abi (f0 # fs) f0 a ra = (Some e, r2)"
      have ma: "match_address env dir abi (f0 # fs) f0 a ra = (Some e, r2)"
      proof -
        {
          assume "probe env a f0 ra = (Inl e, r2)"
          then have ?thesis by (simp add: match_address_def)
        }
        moreover
        {
          assume c: "probe env a f0 ra = (Inr rc, rp) \<and> \<not> is_rejection rc
                    \<and> random_functions_of env (f0 # fs) (world rp) = (Inr (asked @ f # unasked), w2)
                    \<and> count_matches env a asked 0 (rp\<lparr>world := w2\<rparr>) = (Inr m, rq)
                    \<and> probe env a f rq = (Inl e, r2)"
          then have "count_matches env a (asked @ f # unasked) 0 (rp\<lparr>world := w2\<rparr>) = (Inl e, r2)"
            by (intro count_matches_raise [where m = m and rq = rq]) simp_all
          with c have ?thesis by (simp add: match_address_def)
        }
        ultimately show ?thesis using raised by blast
      qed
      from match_addresses_abort [OF h(4) ma] h(1,2,3)
      have ?thesis by (simp add: match_descriptor_def)
    }
    moreover
    {
      assume "load_abi d = Inl e \<and> e \<noteq> Unmodelled_text \<and> r2 = r1"
      then have ?thesis by (simp add: match_descriptor_def)
    }
    moreover
    {
      assume "load_abi d = Inr abi \<and> function_names_of abi = Inl e \<and> r2 = r1"
      then have ?thesis by (simp add: match_descriptor_def)
    }
    moreover
    {
      assume "load_abi d = Inr abi \<and> function_names_of abi = Inr [] \<and> e = IndexError \<and> r2 = r1"
      then have ?thesis by (simp add: match_descriptor_def)
    }
    ultimately show ?thesis using assms(2) by blast
  qed
  let ?r = "match_all env dir addrs later r2"
  let ?p = "path_join dir ''relationship.json''"
  have m: "match_all env dir addrs (earlier @ d # later) (initial_run w) = ?r"
    using md assms(1) by (simp add: match_all_append)
  from match_all_frame [of env dir addrs later r2] obtain more where
    t: "trace ?r = trace r2 @ more" and rd: "relationship_dict ?r = replay more (relationship_dict r2)"
    by blast
  let ?final = "find_matching_contracts env (earlier @ d # later) addrs dir w"
  have f: "?final = ?r\<lparr>trace := trace ?r @ [WriteRelationship ?p (relationship_dict ?r), PrintRelationship ?p]\<rparr>"
    unfolding find_matching_contracts_def Let_def m ..
  have "trace ?final = trace r2 @ more @ [WriteRelationship ?p (relationship_dict ?final), PrintRelationship ?p]"
    unfolding f using t by simp
  moreover have "relationship_dict ?final = replay more (relationship_dict r2)"
    unfolding f using rd by simp
  moreover have "fst ` set (relationship_dict r2) \<subseteq> fst ` set (relationship_dict ?final)"
    unfolding f using rd replay_keys [of "relationship_dict r2" more] by simp
  ultimately have "(let final = ?final; relationship_file_path = ?p
        in (\<exists>more. trace final
               = trace r2 @ more @ [WriteRelationship relationship_file_path (relationship_dict final),
                                    PrintRelationship relationship_file_path]
               \<and> relationship_dict final = replay more (relationship_dict r2))
         \<and> fst ` set (relationship_dict r2) \<subseteq> fst ` set (relationship_dict final))"
    unfolding Let_def by blast
  with md m show ?thesis by (intro conjI)
qed

theorem exception_skips_one_descriptor_witness:
  \<open>match_descriptor (unreachable_env ''B'') ''d'' [''A'', ''B'', ''C'']
       ''{"name":"One","endpoints":[{"name":"f"}]}'' (initial_run 0)
     = (Some RequestException,
        \<lparr>world = 2, relationship_dict = [(''A'', ''d/One.json'')],
          trace = [Query ''A'' (JString ''f'') (Inr (JString ''ok'')),
                   WriteAbi ''d/One.json''
                     (JObject [(''name'', JString ''One''),
                               (''endpoints'', JArray [JObject [(''name'', JString ''f'')]])]),
                   PrintMatch ''A'' ''d/One.json'',
                   Query ''B'' (JString ''f'') (Inl RequestException)]\<rparr>)
   \<and> relationship_dict (find_matching_contracts (unreachable_env ''B'')
        ([] @ ''{"name":"One","endpoints":[{"name":"f"}]}'' # [''{"name":"Two","endpoints":[{"name":"g"}]}''])
        [''A'', ''B'', ''C''] ''d'' 0)
     = [(''A'', ''d/Two.json'')]\<close>
proof -
  let ?abi = "JObject [(''name'', JString ''One''), (''endpoints'', JArray [JObject [(''name'', JString ''f'')]])]"
  let ?ra = "\<lparr>world = 1 :: nat, relationship_dict = [(''A'', ''d/One.json'')],
          trace = [Query ''A'' (JString ''f'') (Inr (JString ''ok'')),
                   WriteAbi ''d/One.json'' ?abi, PrintMatch ''A'' ''d/One.json'']\<rparr>"
  let ?r2 = "\<lparr>world = 2 :: nat, relationship_dict = [(''A'', ''d/One.json'')],
          trace = [Query ''A'' (JString ''f'') (Inr (JString ''ok'')),
                   WriteAbi ''d/One.json'' ?abi, PrintMatch ''A'' ''d/One.json'',
                   Query ''B'' (JString ''f'') (Inl RequestException)]\<rparr>"
  have h: "initial_run 0 = match_all (unreachable_env ''B'') ''d'' [''A'', ''B'', ''C''] [] (initial_run (0 :: nat))"
    \<open>load_abi ''{"name":"One","endpoints":[{"name":"f"}]}'' = Inr ?abi\<close>
    "function_names_of ?abi = Inr (JString ''f'' # [])"
    "[''A'', ''B'', ''C''] = [''A''] @ ''B'' # [''C'']"
    "match_addresses (unreachable_env ''B'') ''d'' ?abi (JString ''f'' # []) (JString ''f'') [''A''] (initial_run 0)
       = (None, ?ra)"
    "probe (unreachable_env ''B'') ''B'' (JString ''f'') ?ra = (Inl RequestException, ?r2)"
    by code_simp+
  have l: \<open>relationship_dict (match_all (unreachable_env ''B'') ''d'' [''A'', ''B'', ''C'']
         [''{"name":"Two","endpoints":[{"name":"g"}]}''] ?r2) = [(''A'', ''d/Two.json'')]\<close>
    by code_simp
  from exception_skips_one_descriptor [where env = "unreachable_env ''B''" and dir = "''d''"
      and addrs = "[''A'', ''B'', ''C'']" and earlier = "[]" and w = 0 and ?r1.0 = "initial_run 0"
      and d = \<open>''{"name":"One","endpoints":[{"name":"f"}]}''\<close> and e = RequestException and ?r2.0 = ?r2
      and abi = ?abi and ?f0.0 = "JString ''f''" and fs = "[]" and probed = "[''A'']" and a = "''B''"
      and rest = "[''C'']" and ra = ?ra
      and later = \<open>[''{"name":"Two","endpoints":[{"name":"g"}]}'']\<close>] h
  have c: \<open>match_descriptor (unreachable_env ''B'') ''d'' [''A'', ''B'', ''C'']
       ''{"name":"One","endpoints":[{"name":"f"}]}'' (initial_run 0) = (Some RequestException, ?r2)\<close>
    and \<open>match_all (unreachable_env ''B'') ''d'' [''A'', ''B'', ''C'']
        ([] @ ''{"name":"One","endpoints":[{"name":"f"}]}'' # [''{"name":"Two","endpoints":[{"name":"g"}]}''])
        (initial_run 0)
      = match_all (unreachable_env ''B'') ''d'' [''A'', ''B'', ''C'']
          [''{"name":"Two","endpoints":[{"name":"g"}]}''] ?r2\<close>
    by blast+
  then have \<open>relationship_dict (find_matching_contracts (unreachable_env ''B'')
        ([] @ ''{"name":"One","endpoints":[{"name":"f"}]}'' # [''{"name":"Two","endpoints":[{"name":"g"}]}''])
        [''A'', ''B'', ''C''] ''d'' 0) = [(''A'', ''d/Two.json'')]\<close>
    unfolding find_matching_contracts_def Let_def using l by simp
  with c show ?thesis by (intro conjI)
qed

text \<open>
  C9. The dictionary of a run starts empty and is what the recorded matches of the
  trace make of the empty dictionary, so nothing else changes it; an address has the
  path of the last match recorded for it; the relationship file is written once, as the
  last write of the run, with the final dictionary. No address has two entries: not at
  the end, not after any number of descriptors, and not after any single address of a
  descriptor when there was none before it.
\<close>

theorem relationship_dict_lifecycle:
  "(let final = find_matching_contracts env abi_jsons addrs dir w;
        relationship_file_path = path_join dir ''relationship.json''
    in (\<exists>body. trace final = body @ [WriteRelationship relationship_file_path (relationship_dict final),
                                     PrintRelationship relationship_file_path]
          \<and> quiet body
          \<and> relationship_dict final = replay body []
          \<and> (\<forall>a. map_of (relationship_dict final) a = last_recorded a body))
       \<and> distinct (map fst (relationship_dict final)))
   \<and> (\<forall>earlier later. abi_jsons = earlier @ later \<longrightarrow>
         distinct (map fst (relationship_dict (match_all env dir addrs earlier (initial_run w)))))
   \<and> (distinct (map fst (relationship_dict r)) \<longrightarrow>
         distinct (map fst (relationship_dict (snd (match_address env dir abi fns f0 a r)))))"
proof (intro conjI allI impI)
  let ?r = "match_all env dir addrs abi_jsons (initial_run w)"
  let ?p = "path_join dir ''relationship.json''"
  let ?final = "find_matching_contracts env abi_jsons addrs dir w"
  have f: "?final = ?r\<lparr>trace := trace ?r @ [WriteRelationship ?p (relationship_dict ?r), PrintRelationship ?p]\<rparr>"
    unfolding find_matching_contracts_def Let_def ..
  from match_all_frame [of env dir addrs abi_jsons "initial_run w"] obtain body where
    t: "trace ?r = body" and rd: "relationship_dict ?r = replay body []" and q: "quiet body"
    by (auto simp: initial_run_def)
  have lr: "\<forall>a. map_of (relationship_dict ?r) a = last_recorded a body"
    unfolding rd by (simp add: replay_last_recorded split: option.splits)
  have di: "distinct (map fst (relationship_dict ?r))"
    unfolding rd by (rule replay_distinct) simp
  have "trace ?final = body @ [WriteRelationship ?p (relationship_dict ?final), PrintRelationship ?p]
          \<and> quiet body \<and> relationship_dict ?final = replay body []
          \<and> (\<forall>a. map_of (relationship_dict ?final) a = last_recorded a body)"
    unfolding f using t rd q lr by simp
  then have ex: "\<exists>body. trace ?final = body @ [WriteRelationship ?p (relationship_dict ?final), PrintRelationship ?p]
          \<and> quiet body \<and> relationship_dict ?final = replay body []
          \<and> (\<forall>a. map_of (relationship_dict ?final) a = last_recorded a body)"
    by blast
  have "distinct (map fst (relationship_dict ?final))" unfolding f using di by simp
  with ex show "(let final = ?final; relationship_file_path = ?p
    in (\<exists>body. trace final = body @ [WriteRelationship relationship_file_path (relationship_dict final),
                                     PrintRelationship relationship_file_path]
          \<and> quiet body
          \<and> relationship_dict final = replay body []
          \<and> (\<forall>a. map_of (relationship_dict final) a = last_recorded a body))
       \<and> distinct (map fst (relationship_dict final)))"
    unfolding Let_def by blast
next
  fix earlier later :: "string list"
  from match_all_frame [of env dir addrs earlier "initial_run w"] obtain new where
    "relationship_dict (match_all env dir addrs earlier (initial_run w)) = replay new []"
    by (auto simp: initial_run_def)
  then show "distinct (map fst (relationship_dict (match_all env dir addrs earlier (initial_run w))))"
    by (simp add: replay_distinct)
next
  assume d: "distinct (map fst (relationship_dict r))"
  obtain x r' where m: "match_address env dir abi fns f0 a r = (x, r')"
    by (cases "match_address env dir abi fns f0 a r")
  from match_address_frame [OF m] obtain new where "relationship_dict r' = replay new (relationship_dict r)"
    by blast
  with d m show "distinct (map fst (relationship_dict (snd (match_address env dir abi fns f0 a r))))"
    by (simp add: replay_distinct)
qed

theorem relationship_dict_lifecycle_witness:
  \<open>relationship_dict (find_matching_contracts (example_env ''A'')
       [''{"name":"Two","endpoints":[{"name":"f"},{"name":"g"}]}'',
        ''{"name":"One","endpoints":[{"name":"f"}]}''] [''A'', ''B''] ''d'' 0)
     = [(''A'', ''d/One.json'')]
   \<and> distinct (map fst (relationship_dict (find_matching_contracts (example_env ''A'')
       [''{"name":"Two","endpoints":[{"name":"f"},{"name":"g"}]}'',
        ''{"name":"One","endpoints":[{"name":"f"}]}''] [''A'', ''B''] ''d'' 0)))\<close>
proof -
  have e: \<open>relationship_dict (find_matching_contracts (example_env ''A'')
       [''{"name":"Two","endpoints":[{"name":"f"},{"name":"g"}]}'',
        ''{"name":"One","endpoints":[{"name":"f"}]}''] [''A'', ''B''] ''d'' 0)
     = [(''A'', ''d/One.json'')]\<close>
    by code_simp
  from relationship_dict_lifecycle [where env = "example_env ''A''" and dir = "''d''" and w = 0
      and addrs = "[''A'', ''B'']"
      and abi_jsons = \<open>[''{"name":"Two","endpoints":[{"name":"f"},{"name":"g"}]}'',
        ''{"name":"One","endpoints":[{"name":"f"}]}'']\<close>]
  have \<open>distinct (map fst (relationship_dict (find_matching_contracts (example_env ''A'')
       [''{"name":"Two","endpoints":[{"name":"f"},{"name":"g"}]}'',
        ''{"name":"One","endpoints":[{"name":"f"}]}''] [''A'', ''B''] ''d'' 0)))\<close>
    unfolding Let_def by blast
  with e show ?thesis by simp
qed


section \<open>Properties of the secondary repair\<close>

lemma plain_char_facts:
  "plain_char c \<Longrightarrow> c \<noteq> CHR 0x22 \<and> c \<noteq> CHR 0x5C \<and> c \<noteq> CHR '']'' \<and> c \<noteq> CHR 0x0A
     \<and> \<not> (of_char c :: nat) < 32 \<and> in_span c"
  by (auto simp: plain_char_def in_span_def)

lemma freeform_Cons: "freeform (p # ps) \<longleftrightarrow> (case p of Plain c \<Rightarrow> plain_char c | _ \<Rightarrow> True) \<and> freeform ps"
  by (simp add: freeform_def)

lemma escape_quotes_pieces:
  "freeform ps \<Longrightarrow>
   str_replace [CHR 0x22] [CHR 0x5C, CHR 0x22] (concat (map written ps)) = concat (map half_escaped ps)"
proof (induction ps)
  case Nil
  then show ?case by simp
next
  case (Cons p ps)
  then have f: "freeform ps" by (simp add: freeform_Cons)
  show ?case
  proof (cases p)
    case (Plain c)
    with Cons.prems have "plain_char c" by (simp add: freeform_Cons)
    then have "c \<noteq> CHR 0x22" by (simp add: plain_char_def)
    with Plain Cons.IH [OF f] show ?thesis by simp
  next
    case Quote
    with Cons.IH [OF f] show ?thesis by simp
  next
    case Newline_marker
    with Cons.IH [OF f] show ?thesis by simp
  qed
qed

lemma collapse_pieces:
  "freeform ps \<Longrightarrow>
   str_replace [CHR 0x5C, CHR 0x5C, CHR ''n''] [CHR 0x5C, CHR ''n''] (concat (map half_escaped ps))
     = concat (map escaped ps)"
proof (induction ps)
  case Nil
  then show ?case by simp
next
  case (Cons p ps)
  then have f: "freeform ps" by (simp add: freeform_Cons)
  show ?case
  proof (cases p)
    case (Plain c)
    with Cons.prems have "plain_char c" by (simp add: freeform_Cons)
    then have "c \<noteq> CHR 0x5C" by (simp add: plain_char_def)
    with Plain Cons.IH [OF f] show ?thesis by simp
  next
    case Quote
    with Cons.IH [OF f] show ?thesis by simp
  next
    case Newline_marker
    with Cons.IH [OF f] show ?thesis by simp
  qed
qed

lemma scan_string_pieces:
  "freeform ps \<Longrightarrow>
   scan_string acc (concat (map escaped ps) @ CHR 0x22 # rest) = Inr (rev acc @ map meant ps, rest)"
proof (induction ps arbitrary: acc)
  case Nil
  then show ?case by simp
next
  case (Cons p ps)
  then have f: "freeform ps" by (simp add: freeform_Cons)
  show ?case
  proof (cases p)
    case (Plain c)
    with Cons.prems have "plain_char c" by (simp add: freeform_Cons)
    note pc = plain_char_facts [OF this]
    with Plain Cons.IH [OF f, of "c # acc"] show ?thesis by simp
  next
    case Quote
    with Cons.IH [OF f, of "CHR 0x22 # acc"] show ?thesis by (simp add: unescape_def)
  next
    case Newline_marker
    with Cons.IH [OF f, of "CHR 0x0A # acc"] show ?thesis by (simp add: unescape_def)
  qed
qed

lemma written_in_span: "freeform ps \<Longrightarrow> \<forall>c\<in>set (concat (map written ps)). in_span c"
proof (induction ps)
  case Nil
  then show ?case by simp
next
  case (Cons p ps)
  then have f: "freeform ps" by (simp add: freeform_Cons)
  show ?case
  proof (cases p)
    case (Plain c)
    with Cons.prems have "plain_char c" by (simp add: freeform_Cons)
    with Plain Cons.IH [OF f] show ?thesis by (simp add: plain_char_facts)
  next
    case Quote
    with Cons.IH [OF f] show ?thesis by (simp add: in_span_def)
  next
    case Newline_marker
    with Cons.IH [OF f] show ?thesis by (simp add: in_span_def)
  qed
qed

lemma lex_punct:
  "json_punct c \<Longrightarrow> c \<noteq> CHR 0x22 \<Longrightarrow> lex (c # cs) = map_sum id ((#) (punct_token c)) (lex cs)"
  by (auto simp: json_punct_def json_ws_def)

lemma lex_string:
  "scan_string [] cs = Inr (str, rest) \<Longrightarrow>
   lex (CHR 0x22 # cs) = map_sum id ((#) (TString str)) (lex rest)"
  by (simp add: json_ws_def)

lemma scan_docs_key: "scan_string [] (''docs'' @ CHR 0x22 # rest) = Inr (''docs'', rest)"
  by simp

lemma lex_repaired:
  assumes "freeform ps"
  shows "lex (''{'' @ docs_prefix @ CHR 0x22 # concat (map escaped ps) @ CHR 0x22 # '']}'')
         = Inr [TLBrace, TString ''docs'', TColon, TLBracket, TString (map meant ps), TRBracket, TRBrace]"
proof -
  let ?e = "concat (map escaped ps)"
  have p: "json_punct (CHR ''{'')" "json_punct (CHR '':'')" "json_punct (CHR ''['')"
    "punct_token (CHR ''{'') = TLBrace" "punct_token (CHR '':'') = TColon"
    "punct_token (CHR ''['') = TLBracket"
    by (simp_all add: json_punct_def punct_token_def)
  have tail: "lex '']}'' = Inr [TRBracket, TRBrace]"
    by (simp add: json_ws_def json_punct_def punct_token_def)
  have "scan_string [] (?e @ CHR 0x22 # '']}'') = Inr (map meant ps, '']}'')"
    using scan_string_pieces [OF assms, of "[]" "'']}''"] by simp
  from lex_string [OF this] tail
  have 1: "lex (CHR 0x22 # ?e @ CHR 0x22 # '']}'') = Inr [TString (map meant ps), TRBracket, TRBrace]"
    by (simp only: map_sum.simps id_apply)
  have 2: "lex (CHR ''['' # CHR 0x22 # ?e @ CHR 0x22 # '']}'')
      = Inr [TLBracket, TString (map meant ps), TRBracket, TRBrace]"
    using lex_punct [OF p(3), of "CHR 0x22 # ?e @ CHR 0x22 # '']}''"] 1 p(6)
    by (simp del: lex.simps)
  have 3: "lex (CHR '':'' # CHR ''['' # CHR 0x22 # ?e @ CHR 0x22 # '']}'')
      = Inr [TColon, TLBracket, TString (map meant ps), TRBracket, TRBrace]"
    using lex_punct [OF p(2), of "CHR ''['' # CHR 0x22 # ?e @ CHR 0x22 # '']}''"] 2 p(5)
    by (simp del: lex.simps)
  have 4: "lex (CHR 0x22 # ''docs'' @ CHR 0x22 # CHR '':'' # CHR ''['' # CHR 0x22 # ?e @ CHR 0x22 # '']}'')
      = Inr [TString ''docs'', TColon, TLBracket, TString (map meant ps), TRBracket, TRBrace]"
    using lex_string [OF scan_docs_key, of "CHR '':'' # CHR ''['' # CHR 0x22 # ?e @ CHR 0x22 # '']}''"] 3
    by (simp del: lex.simps)
  have 5: "lex (CHR ''{'' # CHR 0x22 # ''docs'' @ CHR 0x22 # CHR '':'' # CHR ''['' # CHR 0x22 # ?e @ CHR 0x22 # '']}'')
      = Inr [TLBrace, TString ''docs'', TColon, TLBracket, TString (map meant ps), TRBracket, TRBrace]"
    using lex_punct [OF p(1), of "CHR 0x22 # ''docs'' @ CHR 0x22 # CHR '':'' # CHR ''['' # CHR 0x22 # ?e @ CHR 0x22 # '']}''"]
      4 p(4)
    by (simp del: lex.simps)
  have "''{'' @ docs_prefix @ CHR 0x22 # ?e @ CHR 0x22 # '']}''
      = CHR ''{'' # CHR 0x22 # ''docs'' @ CHR 0x22 # CHR '':'' # CHR ''['' # CHR 0x22 # ?e @ CHR 0x22 # '']}''"
    by (simp add: docs_prefix_def)
  with 5 show ?thesis by (simp only:)
qed

lemma prefix_in_front:
  assumes "prefix p (c # cs @ p @ rest)" "p \<noteq> []"
  shows "sublist p ((c # cs) @ butlast p)"
proof -
  have "prefix ((c # cs) @ butlast p) (c # cs @ p @ rest)"
    using assms(2) by (metis append.assoc append_Cons append_butlast_last_id prefixI)
  moreover have "length p \<le> length ((c # cs) @ butlast p)" using assms(2) by simp
  ultimately have "prefix p ((c # cs) @ butlast p)"
    using assms(1) prefix_length_prefix by blast
  then show ?thesis by (rule prefix_imp_sublist)
qed

lemma sublist_tail_front: "\<not> sublist p ((c # cs) @ ys) \<Longrightarrow> \<not> sublist p (cs @ ys)"
  by (simp add: sublist_Cons_right)

lemma findall_docs_skip:
  "\<not> sublist docs_prefix (pre @ butlast docs_prefix) \<Longrightarrow>
   findall_docs (pre @ docs_prefix @ rest) = findall_docs (docs_prefix @ rest)"
proof (induction pre)
  case Nil
  then show ?case by simp
next
  case (Cons c cs)
  have ne: "docs_prefix \<noteq> []" by (simp add: docs_prefix_def)
  from Cons.prems prefix_in_front [OF _ ne] have "\<not> prefix docs_prefix (c # cs @ docs_prefix @ rest)"
    by blast
  then have "findall_docs ((c # cs) @ docs_prefix @ rest) = findall_docs (cs @ docs_prefix @ rest)"
    by simp
  with Cons.IH [OF sublist_tail_front [OF Cons.prems]] show ?case by simp
qed

lemma findall_docs_head:
  assumes "\<forall>c\<in>set body. in_span c"
  shows "findall_docs (docs_prefix @ body @ CHR '']'' # post) = (CHR ''['' # body @ '']'') # findall_docs post"
proof -
  have tw: "takeWhile in_span (body @ CHR '']'' # post) = body"
    using assms by (induction body) (auto simp: in_span_def)
  have dw: "dropWhile in_span (body @ CHR '']'' # post) = CHR '']'' # post"
    using assms by (induction body) (auto simp: in_span_def)
  have dr: "drop (length docs_prefix) (docs_prefix @ body @ CHR '']'' # post) = body @ CHR '']'' # post" by simp
  obtain c cs where dp: "docs_prefix @ body @ CHR '']'' # post = c # cs"
    by (cases "docs_prefix @ body @ CHR '']'' # post") (auto simp: docs_prefix_def)
  have p: "prefix docs_prefix (c # cs)" using dp by (metis prefixI)
  have "findall_docs (c # cs) = (CHR ''['' # body @ '']'') # findall_docs post"
    using p by (subst findall_docs.simps) (simp add: dp [symmetric] dr tw dw Let_def del: findall_docs.simps)
  then show ?thesis using dp by simp
qed

lemma str_replace_skip:
  "old \<noteq> [] \<Longrightarrow> \<not> sublist old (pre @ butlast old) \<Longrightarrow>
   str_replace old new (pre @ old @ rest) = pre @ new @ str_replace old new rest"
proof (induction pre)
  case Nil
  obtain c cs where o: "old @ rest = c # cs" using Nil.prems(1) by (cases "old @ rest") auto
  have "prefix old (c # cs)" using o by (metis prefixI)
  moreover have "drop (length old) (c # cs) = rest" using o by (metis append_eq_conv_conj)
  ultimately have "str_replace old new (c # cs) = new @ str_replace old new rest"
    using Nil.prems(1) by (simp del: prefix_code)
  then show ?case using o by simp
next
  case (Cons c cs)
  from Cons.prems prefix_in_front [of old c cs rest] have "\<not> prefix old (c # cs @ old @ rest)"
    by blast
  then have "str_replace old new ((c # cs) @ old @ rest) = c # str_replace old new (cs @ old @ rest)"
    using Cons.prems(1) by simp
  with Cons.IH [OF Cons.prems(1) sublist_tail_front [OF Cons.prems(2)]] show ?case by simp
qed

lemma findall_docs_fields:
  "separate front flds tail \<Longrightarrow>
   findall_docs (text_of flds tail) = map (\<lambda>(gap, body). CHR ''['' # body @ '']'') flds"
proof (induction flds arbitrary: front)
  case Nil
  then show ?case by simp
next
  case (Cons fld flds)
  obtain gap body where fld: "fld = (gap, body)" by (cases fld)
  let ?span = "CHR ''['' # body @ '']''"
  let ?front = "(front @ gap @ butlast docs_prefix) @ CHR ''['' # repair_docs_as_single_string ?span @ '']''"
  from Cons.prems fld have b: "\<forall>c\<in>set body. in_span c"
    and g: "\<not> sublist docs_prefix (gap @ butlast docs_prefix)"
    and s: "separate ?front flds tail"
    by (simp_all add: Let_def)
  have "findall_docs (text_of (fld # flds) tail)
      = findall_docs (gap @ docs_prefix @ body @ CHR '']'' # text_of flds tail)"
    using fld by simp
  also have "\<dots> = findall_docs (docs_prefix @ body @ CHR '']'' # text_of flds tail)"
    using g by (rule findall_docs_skip)
  also have "\<dots> = ?span # findall_docs (text_of flds tail)"
    using b by (rule findall_docs_head)
  also have "findall_docs (text_of flds tail) = map (\<lambda>(gap, body). CHR ''['' # body @ '']'') flds"
    using s by (rule Cons.IH)
  finally show ?case using fld by simp
qed

lemma repair_docs_loop_fields:
  "separate front flds tail \<Longrightarrow>
   repair_docs_loop (map (\<lambda>(gap, body). CHR ''['' # body @ '']'') flds) (front @ text_of flds tail)
     = front @ repaired_of flds tail"
proof (induction flds arbitrary: front)
  case Nil
  then show ?case by simp
next
  case (Cons fld flds)
  obtain gap body where fld: "fld = (gap, body)" by (cases fld)
  let ?span = "CHR ''['' # body @ '']''"
  let ?new = "CHR ''['' # repair_docs_as_single_string ?span @ '']''"
  let ?before = "front @ gap @ butlast docs_prefix"
  let ?behind = "text_of flds tail"
  from Cons.prems fld have n1: "\<not> sublist ?span (?before @ butlast ?span)"
    and n2: "\<not> sublist ?span ?behind"
    and s: "separate (?before @ ?new) flds tail"
    by (simp_all add: Let_def)
  have ne: "?span \<noteq> []" by simp
  have tx: "front @ text_of (fld # flds) tail = ?before @ ?span @ ?behind"
    using fld by (simp add: docs_prefix_def)
  have "str_replace ?span ?new (front @ text_of (fld # flds) tail)
      = ?before @ ?new @ str_replace ?span ?new ?behind"
    unfolding tx by (rule str_replace_skip [OF ne n1])
  also have "str_replace ?span ?new ?behind = ?behind"
    using n2 by (intro str_replace_absent) simp_all
  finally have one: "str_replace ?span ?new (front @ text_of (fld # flds) tail)
      = (?before @ ?new) @ ?behind" by simp
  have "repair_docs_loop (map (\<lambda>(gap, body). CHR ''['' # body @ '']'') (fld # flds))
          (front @ text_of (fld # flds) tail)
      = repair_docs_loop (map (\<lambda>(gap, body). CHR ''['' # body @ '']'') flds)
          (str_replace ?span ?new (front @ text_of (fld # flds) tail))"
    using fld by simp
  also have "\<dots> = (?before @ ?new) @ repaired_of flds tail"
    unfolding one using s by (rule Cons.IH)
  also have "\<dots> = front @ repaired_of (fld # flds) tail"
    using fld by (simp add: docs_prefix_def)
  finally show ?case .
qed

lemma lex_docs_value:
  assumes "freeform ps"
  shows "lex (CHR ''['' # CHR 0x22 # concat (map escaped ps) @ CHR 0x22 # CHR '']'' # rest)
         = map_sum id ((@) [TLBracket, TString (map meant ps), TRBracket]) (lex rest)"
proof -
  let ?e = "concat (map escaped ps)"
  have p: "json_punct (CHR ''['')" "json_punct (CHR '']'')"
    "punct_token (CHR ''['') = TLBracket" "punct_token (CHR '']'') = TRBracket"
    by (simp_all add: json_punct_def punct_token_def)
  have 1: "lex (CHR '']'' # rest) = map_sum id ((#) TRBracket) (lex rest)"
    using lex_punct [OF p(2), of rest] p(4) by simp
  have "scan_string [] (?e @ CHR 0x22 # CHR '']'' # rest) = Inr (map meant ps, CHR '']'' # rest)"
    using scan_string_pieces [OF assms, of "[]" "CHR '']'' # rest"] by simp
  from lex_string [OF this]
  have 2: "lex (CHR 0x22 # ?e @ CHR 0x22 # CHR '']'' # rest)
      = map_sum id ((#) (TString (map meant ps))) (lex (CHR '']'' # rest))" .
  have 3: "lex (CHR ''['' # CHR 0x22 # ?e @ CHR 0x22 # CHR '']'' # rest)
      = map_sum id ((#) TLBracket) (lex (CHR 0x22 # ?e @ CHR 0x22 # CHR '']'' # rest))"
    using lex_punct [OF p(1), of "CHR 0x22 # ?e @ CHR 0x22 # CHR '']'' # rest"] p(3) by simp
  show ?thesis unfolding 3 2 1 by (cases "lex rest") simp_all
qed

lemma parse_docs_value:
  "parse_tokens (EValue, InMember kvs k # stack) (TLBracket # TString str # TRBracket # ts)
   = parse_tokens (EDelim, InObject (AList.update k (JArray [JString str]) kvs) # stack) ts"
  by (simp add: parse_step_def start_value_def push_value_def)

lemma repair_pieces:
  assumes "freeform ps"
  shows "repair_docs_as_single_string (CHR ''['' # concat (map written ps) @ '']'')
         = CHR 0x22 # concat (map escaped ps) @ [CHR 0x22]"
  by (simp add: repair_docs_as_single_string_def Let_def butlast_append
        escape_quotes_pieces [OF assms] collapse_pieces [OF assms])

lemma separate_single:
  assumes "\<forall>c\<in>set body. in_span c"
  shows "separate [] [(''{'', body)] ''}''"
proof -
  have a: "CHR '']'' \<notin> set (''{'' @ butlast docs_prefix @ CHR ''['' # body)"
    using assms by (auto simp: docs_prefix_def in_span_def)
  have "\<not> sublist (CHR ''['' # body @ '']'') (''{'' @ butlast docs_prefix @ CHR ''['' # body)"
  proof
    assume "sublist (CHR ''['' # body @ '']'') (''{'' @ butlast docs_prefix @ CHR ''['' # body)"
    then have "set (CHR ''['' # body @ '']'') \<subseteq> set (''{'' @ butlast docs_prefix @ CHR ''['' # body)"
      by (rule set_mono_sublist)
    with a show False by auto
  qed
  moreover have "\<not> sublist (CHR ''['' # body @ '']'') ''}''"
    by (auto simp: sublist_Cons_right)
  moreover have "\<not> sublist docs_prefix (''{'' @ butlast docs_prefix)"
    by (simp add: docs_prefix_def sublist_Cons_right)
  moreover have "findall_docs ''}'' = []" by (simp add: docs_prefix_def)
  ultimately show ?thesis using assms by (simp add: Let_def butlast_append)
qed

text \<open>
  C6, as the code has it. The secondary repair is used only when the escaped text does
  not parse; then the descriptor is what the repaired text parses to. In a text whose
  \<open>docs\<close> fields are separate, the pattern finds every field from its opening to its
  closing bracket, and the repaired text is the same text with, between the brackets of
  every field, the one string made from it. For a field holding free text with quotes
  and newline markers that string is the text with every double quote escaped and every
  marker collapsed, between two double quotes; wherever the repaired field stands, it is
  read as an opening bracket, the string of the text meant, and a closing bracket, which
  in an object make the member \<open>docs\<close> the array of that one string. So the object with
  such a field as its only member parses, after the repair, to the object whose \<open>docs\<close>
  member is the array of that one string.
\<close>

theorem docs_repair:
  "(json_loads (unicode_escape s) = Inr v \<longrightarrow> load_abi s = Inr v)
   \<and> (json_loads (unicode_escape s) = Inl err \<and> json_loads (repair_broken_json s) = Inr v
        \<longrightarrow> load_abi s = Inr v)
   \<and> (separate [] flds tail \<longrightarrow>
        findall_docs (text_of flds tail) = map (\<lambda>(gap, body). CHR ''['' # body @ '']'') flds
        \<and> repair_broken_json (text_of flds tail) = repaired_of flds tail)
   \<and> (freeform ps \<longrightarrow>
        (let body = concat (map written ps);
             repaired = repair_docs_as_single_string (CHR ''['' # body @ '']'')
         in (\<forall>c\<in>set body. in_span c)
            \<and> repaired = CHR 0x22 # concat (map escaped ps) @ [CHR 0x22]
            \<and> lex (CHR ''['' # repaired @ CHR '']'' # rest)
                = map_sum id ((@) [TLBracket, TString (map meant ps), TRBracket]) (lex rest)
            \<and> parse_tokens (EValue, InMember kvs ''docs'' # stack)
                  (TLBracket # TString (map meant ps) # TRBracket # ts)
                = parse_tokens
                    (EDelim, InObject (AList.update ''docs'' (JArray [JString (map meant ps)]) kvs) # stack) ts
            \<and> json_loads (repair_broken_json (''{'' @ docs_prefix @ body @ '']}''))
                = Inr (JObject [(''docs'', JArray [JString (map meant ps)])])))"
proof (intro conjI impI)
  assume "json_loads (unicode_escape s) = Inr v"
  then show "load_abi s = Inr v" by (simp add: load_abi_def)
next
  assume "json_loads (unicode_escape s) = Inl err \<and> json_loads (repair_broken_json s) = Inr v"
  then show "load_abi s = Inr v" by (simp add: load_abi_def)
next
  assume sep: "separate [] flds tail"
  show fd: "findall_docs (text_of flds tail) = map (\<lambda>(gap, body). CHR ''['' # body @ '']'') flds"
    using sep by (rule findall_docs_fields)
  show "repair_broken_json (text_of flds tail) = repaired_of flds tail"
    unfolding repair_broken_json_def fd using repair_docs_loop_fields [OF sep] by simp
next
  assume f: "freeform ps"
  let ?body = "concat (map written ps)"
  let ?new = "CHR 0x22 # concat (map escaped ps) @ [CHR 0x22]"
  note sp = written_in_span [OF f]
  note rs = repair_pieces [OF f]
  have lx: "lex (CHR ''['' # ?new @ CHR '']'' # rest)
      = map_sum id ((@) [TLBracket, TString (map meant ps), TRBracket]) (lex rest)"
    using lex_docs_value [OF f, of rest] by simp
  have tx: "''{'' @ docs_prefix @ ?body @ '']}'' = text_of [(''{'', ?body)] ''}''" by simp
  have rb: "repair_broken_json (''{'' @ docs_prefix @ ?body @ '']}'')
      = ''{'' @ docs_prefix @ CHR 0x22 # concat (map escaped ps) @ CHR 0x22 # '']}''"
    unfolding tx repair_broken_json_def findall_docs_fields [OF separate_single [OF sp]]
    using repair_docs_loop_fields [OF separate_single [OF sp]] rs by simp
  have jl: "json_loads (repair_broken_json (''{'' @ docs_prefix @ ?body @ '']}''))
      = Inr (JObject [(''docs'', JArray [JString (map meant ps)])])"
    unfolding rb json_loads_def lex_repaired [OF f]
    by (simp add: parse_step_def start_value_def push_value_def)
  show "(let body = ?body;
             repaired = repair_docs_as_single_string (CHR ''['' # body @ '']'')
         in (\<forall>c\<in>set body. in_span c)
            \<and> repaired = CHR 0x22 # concat (map escaped ps) @ [CHR 0x22]
            \<and> lex (CHR ''['' # repaired @ CHR '']'' # rest)
                = map_sum id ((@) [TLBracket, TString (map meant ps), TRBracket]) (lex rest)
            \<and> parse_tokens (EValue, InMember kvs ''docs'' # stack)
                  (TLBracket # TString (map meant ps) # TRBracket # ts)
                = parse_tokens
                    (EDelim, InObject (AList.update ''docs'' (JArray [JString (map meant ps)]) kvs) # stack) ts
            \<and> json_loads (repair_broken_json (''{'' @ docs_prefix @ body @ '']}''))
                = Inr (JObject [(''docs'', JArray [JString (map meant ps)])]))"
    unfolding Let_def rs by (intro conjI sp lx jl parse_docs_value refl)
qed

theorem docs_repair_witness:
  \<open>load_abi ''{"docs":[]}'' = Inr (JObject [(''docs'', JArray [])])
   \<and> load_abi (''{"name":"Foo","endpoints":[{"name":"add","docs":[Adds "x" to y.''
             @ [CHR 0x5C, CHR 0x5C] @ ''nSee the manual],"inputs":[]},{"name":"sub","docs":["Subtracts."]}]}'')
     = Inr (JObject
        [(''name'', JString ''Foo''),
         (''endpoints'', JArray
            [JObject [(''name'', JString ''add''),
                      (''docs'', JArray [JString (''Adds "x" to y.'' @ [CHR 0x0A] @ ''See the manual'')]),
                      (''inputs'', JArray [])],
             JObject [(''name'', JString ''sub''),
                      (''docs'', JArray [JString (CHR 0x22 # ''Subtracts.'' @ [CHR 0x22])])]])])
   \<and> json_loads (repair_broken_json (''{"docs":[say "hi"'' @ [CHR 0x5C, CHR 0x5C] @ ''n]}''))
     = Inr (JObject [(''docs'', JArray [JString (''say "hi"'' @ [CHR 0x0A])])])\<close>
proof -
  let ?flds = \<open>[(''{"name":"Foo","endpoints":[{"name":"add",'',
                   ''Adds "x" to y.'' @ [CHR 0x5C, CHR 0x5C] @ ''nSee the manual''),
                  ('',"inputs":[]},{"name":"sub",'', ''"Subtracts."'')]\<close>
  let ?tail = "''}]}''"
  let ?d = \<open>''{"name":"Foo","endpoints":[{"name":"add","docs":[Adds "x" to y.''
             @ [CHR 0x5C, CHR 0x5C] @ ''nSee the manual],"inputs":[]},{"name":"sub","docs":["Subtracts."]}]}''\<close>
  let ?v = \<open>JObject
        [(''name'', JString ''Foo''),
         (''endpoints'', JArray
            [JObject [(''name'', JString ''add''),
                      (''docs'', JArray [JString (''Adds "x" to y.'' @ [CHR 0x0A] @ ''See the manual'')]),
                      (''inputs'', JArray [])],
             JObject [(''name'', JString ''sub''),
                      (''docs'', JArray [JString (CHR 0x22 # ''Subtracts.'' @ [CHR 0x22])])]])]\<close>
  let ?ps = "[Plain (CHR ''s''), Plain (CHR ''a''), Plain (CHR ''y''), Plain (CHR '' ''), Quote,
              Plain (CHR ''h''), Plain (CHR ''i''), Quote, Newline_marker]"
  have a: \<open>json_loads (unicode_escape ''{"docs":[]}'') = Inr (JObject [(''docs'', JArray [])])\<close>
    by code_simp
  have sep: "separate [] ?flds ?tail"
    by code_simp
  have tx: "text_of ?flds ?tail = ?d"
    by (simp add: docs_prefix_def)
  have b: "json_loads (unicode_escape ?d) = Inl Malformed"
    by code_simp
  have c: "json_loads (repaired_of ?flds ?tail) = Inr ?v"
    by code_simp
  have f: "freeform ?ps"
    by (simp add: freeform_def plain_char_def)
  have t: \<open>''{'' @ docs_prefix @ concat (map written ?ps) @ '']}''
      = ''{"docs":[say "hi"'' @ [CHR 0x5C, CHR 0x5C] @ ''n]}''\<close>
    by (simp add: docs_prefix_def)
  have m: \<open>map meant ?ps = ''say "hi"'' @ [CHR 0x0A]\<close>
    by simp
  from docs_repair [where s = \<open>''{"docs":[]}''\<close> and v = "JObject [(''docs'', JArray [])]"] a
  have 1: \<open>load_abi ''{"docs":[]}'' = Inr (JObject [(''docs'', JArray [])])\<close>
    by blast
  from docs_repair [where flds = ?flds and tail = ?tail] sep
  have "repair_broken_json (text_of ?flds ?tail) = repaired_of ?flds ?tail"
    by blast
  with c have "json_loads (repair_broken_json ?d) = Inr ?v"
    unfolding tx by (simp only:)
  with docs_repair [where s = ?d and err = Malformed and v = ?v] b
  have 2: "load_abi ?d = Inr ?v"
    by blast
  from docs_repair [where ps = ?ps] f
  have "json_loads (repair_broken_json (''{'' @ docs_prefix @ concat (map written ?ps) @ '']}''))
      = Inr (JObject [(''docs'', JArray [JString (map meant ?ps)])])"
    unfolding Let_def by blast
  then have 3: \<open>json_loads (repair_broken_json (''{"docs":[say "hi"'' @ [CHR 0x5C, CHR 0x5C] @ ''n]}''))
      = Inr (JObject [(''docs'', JArray [JString (''say "hi"'' @ [CHR 0x0A])])])\<close>
    unfolding t m .
  from 1 2 3 show ?thesis by (intro conjI)
qed

text \<open>
  C6 as stated fails where the text of one field occurs a second time: the replacement
  is by text. Here the first field, \<open>[x]\<close>, is repaired to \<open>["x"]\<close>, which is the text of
  the second field; when the turn of the second field comes, both are replaced, and the
  first field ends as the string of \<open>x\<close> between two quotes, not as the string
  \<open>x\<close> made by stripping its brackets.
\<close>

theorem docs_repair_counterexample:
  \<open>findall_docs ''{"a":{"docs":[x]},"b":{"docs":["x"]}}'' = [''[x]'', ''["x"]'']
   \<and> repair_docs_as_single_string ''[x]'' = ''"x"''
   \<and> json_loads (repair_broken_json ''{"a":{"docs":[x]},"b":{"docs":["x"]}}'')
     = Inr (JObject [(''a'', JObject [(''docs'', JArray [JString ''"x"''])]),
                     (''b'', JObject [(''docs'', JArray [JString ''"x"''])])])\<close>
  by (intro conjI; code_simp)

end
